theory Spec2Isabelle
  imports Main "HOL-Library.Signed_Division" "HOL-Library.Monad_Syntax"
begin

section \<open>Data model of the tile grid\<close>

text \<open>
  The enumerations of \<^verbatim>\<open>main.c\<close>. \<open>Terrain\<close> carries the integer codes of the C enum
  (\<open>LHO_EMPTY = -1\<close>, \<open>LHO_RIVER = 0\<close>, \<open>LHO_LANDSCAPE = 1\<close>), because the code compares
  them with \<open>>\<close>.
\<close>

datatype Terrain = LHO_EMPTY | LHO_RIVER | LHO_LANDSCAPE

fun terrain_code :: "Terrain \<Rightarrow> int" where
  "terrain_code LHO_EMPTY = -1"
| "terrain_code LHO_RIVER = 0"
| "terrain_code LHO_LANDSCAPE = 1"

datatype Landscape = LHO_MEADOW | LHO_THICKET | LHO_MOUNTAIN | LHO_SUBURB

datatype ZigZag = LHO_UP | LHO_DOWN | LHO_LEFT | LHO_RIGHT

record River =
  headLoc :: int
  oldHeadLoc :: int
  newRiver :: bool

record Tile =
  type :: Terrain
  numAdjRivers :: int
  numAdjLands :: int

text \<open>
  \<open>struct Grid\<close>: the tile array is a list of rows, each a list of tiles. The grid is passed
  by value in the model, so \<open>copy_grid\<close> (a deep copy of every field) is the identity.
\<close>

record Grid =
  grid :: "Tile list list"
  river :: River
  numFilledTiles :: int
  maxTiles :: int
  full :: bool
  val :: int

text \<open>
  The array has \<open>numRows\<close> rows of \<open>numCols\<close> tiles each, as \<open>allocate_grid\<close> builds it.
\<close>

definition wf_grid :: "int \<Rightarrow> int \<Rightarrow> Grid \<Rightarrow> bool" where
  "wf_grid numRows numCols g \<longleftrightarrow>
     length (grid g) = nat numRows \<and> list_all (\<lambda>row. length row = nat numCols) (grid g)"

section \<open>Index mapping\<close>

text \<open>
  C integer division truncates towards zero: \<open>sdiv\<close> and \<open>smod\<close>. The statics
  \<open>numRows\<close> and \<open>numCols\<close> are parameters of every operation.
\<close>

definition get_row_idx :: "int \<Rightarrow> int \<Rightarrow> int" where
  "get_row_idx numCols linIndex = linIndex sdiv numCols"

definition get_col_idx :: "int \<Rightarrow> int \<Rightarrow> int" where
  "get_col_idx numCols linIndex = linIndex smod numCols"

section \<open>Access to the tile array\<close>

text \<open>
  \<open>grid.grid[i][j]\<close>: a read or write outside the allocated \<open>numRows \<times> numCols\<close> array is
  undefined behaviour in C; the model returns \<open>None\<close> there.
\<close>

definition in_array :: "int \<Rightarrow> int \<Rightarrow> int \<Rightarrow> int \<Rightarrow> bool" where
  "in_array numRows numCols i j \<longleftrightarrow> 0 \<le> i \<and> i < numRows \<and> 0 \<le> j \<and> j < numCols"

definition tile_at :: "int \<Rightarrow> int \<Rightarrow> Grid \<Rightarrow> int \<Rightarrow> int \<Rightarrow> Tile option" where
  "tile_at numRows numCols g i j =
     (if in_array numRows numCols i j then Some (grid g ! nat i ! nat j) else None)"

definition tile_upd :: "int \<Rightarrow> int \<Rightarrow> (Tile \<Rightarrow> Tile) \<Rightarrow> int \<Rightarrow> int \<Rightarrow> Grid \<Rightarrow> Grid option" where
  "tile_upd numRows numCols f i j g =
     (if in_array numRows numCols i j
      then Some (g\<lparr>grid := (grid g)[nat i := (grid g ! nat i)[nat j := f (grid g ! nat i ! nat j)]]\<rparr>)
      else None)"

section \<open>Allocation\<close>

definition empty_tile :: Tile where
  "empty_tile = \<lparr>type = LHO_EMPTY, numAdjRivers = 0, numAdjLands = 0\<rparr>"

definition allocate_grid :: "int \<Rightarrow> int \<Rightarrow> Grid" where
  "allocate_grid numRows numCols =
     \<lparr>grid = replicate (nat numRows) (replicate (nat numCols) empty_tile),
      river = \<lparr>headLoc = -1, oldHeadLoc = -1, newRiver = True\<rparr>,
      numFilledTiles = 0,
      maxTiles = numRows * numCols,
      full = False,
      val = -1\<rparr>"

section \<open>Placement and removal\<close>

text \<open>\<open>chk_loc\<close>: false when the index is outside the grid or the tile is in use.\<close>

definition chk_loc :: "int \<Rightarrow> int \<Rightarrow> int \<Rightarrow> Grid \<Rightarrow> bool option" where
  "chk_loc numRows numCols linIndex g =
     (if linIndex < 0 \<or> linIndex > numRows * numCols - 1 then Some False
      else do {
        t \<leftarrow> tile_at numRows numCols g (get_row_idx numCols linIndex) (get_col_idx numCols linIndex);
        if terrain_code (type t) > terrain_code LHO_EMPTY then Some False else Some True
      })"

text \<open>
  The block that follows every placement and removal: one counter of each of the up to four
  orthogonal neighbours of \<open>(i, j)\<close> is changed by \<open>f\<close>, in the order up, down, left, right.
\<close>

definition upd_neighbours :: "int \<Rightarrow> int \<Rightarrow> (Tile \<Rightarrow> Tile) \<Rightarrow> int \<Rightarrow> int \<Rightarrow> Grid \<Rightarrow> Grid option" where
  "upd_neighbours numRows numCols f i j g = do {
     g1 \<leftarrow> (if i > 0 then tile_upd numRows numCols f (i - 1) j g else Some g);
     g2 \<leftarrow> (if i < numRows - 1 then tile_upd numRows numCols f (i + 1) j g1 else Some g1);
     g3 \<leftarrow> (if j > 0 then tile_upd numRows numCols f i (j - 1) g2 else Some g2);
     (if j < numCols - 1 then tile_upd numRows numCols f i (j + 1) g3 else Some g3)
   }"

text \<open>\<open>numFilledTiles++\<close> followed by the test that sets \<open>full\<close>.\<close>

definition count_filled :: "Grid \<Rightarrow> Grid" where
  "count_filled g =
     (let g1 = g\<lparr>numFilledTiles := numFilledTiles g + 1\<rparr>
      in if numFilledTiles g1 = maxTiles g1 then g1\<lparr>full := True\<rparr> else g1)"

definition add_land :: "int \<Rightarrow> int \<Rightarrow> int \<Rightarrow> Grid \<Rightarrow> (bool \<times> Grid) option" where
  "add_land numRows numCols linIndex g = do {
     validLoc \<leftarrow> chk_loc numRows numCols linIndex g;
     if validLoc then do {
       let i = get_row_idx numCols linIndex;
       let j = get_col_idx numCols linIndex;
       g1 \<leftarrow> tile_upd numRows numCols (\<lambda>t. t\<lparr>type := LHO_LANDSCAPE\<rparr>) i j g;
       g2 \<leftarrow> upd_neighbours numRows numCols (\<lambda>t. t\<lparr>numAdjLands := numAdjLands t + 1\<rparr>) i j
               (count_filled g1);
       Some (True, g2)
     } else Some (False, g)
   }"

text \<open>
  The two tests of \<open>add_river\<close>: whether a cell lies on the border of the grid, and whether
  the cell \<open>linIndex\<close> is one orthogonal step away from the river head \<open>curLoc\<close>.
\<close>

definition on_border :: "int \<Rightarrow> int \<Rightarrow> int \<Rightarrow> bool" where
  "on_border numRows numCols linIndex \<longleftrightarrow>
     get_row_idx numCols linIndex = 0 \<or> get_col_idx numCols linIndex = 0 \<or>
     get_row_idx numCols linIndex = numRows - 1 \<or> get_col_idx numCols linIndex = numCols - 1"

definition adjacent_cells :: "int \<Rightarrow> int \<Rightarrow> int \<Rightarrow> bool" where
  "adjacent_cells numCols curLoc linIndex \<longleftrightarrow>
     (abs (get_row_idx numCols linIndex - get_row_idx numCols curLoc) = 1 \<and>
      abs (get_col_idx numCols linIndex - get_col_idx numCols curLoc) = 0) \<or>
     (abs (get_row_idx numCols linIndex - get_row_idx numCols curLoc) = 0 \<and>
      abs (get_col_idx numCols linIndex - get_col_idx numCols curLoc) = 1)"

text \<open>
  \<open>add_river\<close>: the border test of a new river clears \<open>newRiver\<close> before the location is
  checked; the test against the river head is skipped when there is no head.
\<close>

definition add_river :: "int \<Rightarrow> int \<Rightarrow> int \<Rightarrow> Grid \<Rightarrow> (bool \<times> Grid) option" where
  "add_river numRows numCols linIndex g =
     (if newRiver (river g) \<and> \<not> on_border numRows numCols linIndex then Some (False, g)
      else do {
        let ga = (if newRiver (river g) then g\<lparr>river := (river g)\<lparr>newRiver := False\<rparr>\<rparr> else g);
        validLoc \<leftarrow> chk_loc numRows numCols linIndex ga;
        let curLoc = headLoc (river ga);
        if \<not> adjacent_cells numCols curLoc linIndex \<and> curLoc > -1 then Some (False, ga)
        else if validLoc then do {
          let gb = ga\<lparr>river := (river ga)\<lparr>oldHeadLoc := headLoc (river ga), headLoc := linIndex\<rparr>\<rparr>;
          gc \<leftarrow> tile_upd numRows numCols (\<lambda>t. t\<lparr>type := LHO_RIVER\<rparr>)
                  (get_row_idx numCols linIndex) (get_col_idx numCols linIndex) gb;
          gd \<leftarrow> upd_neighbours numRows numCols (\<lambda>t. t\<lparr>numAdjRivers := numAdjRivers t + 1\<rparr>)
                  (get_row_idx numCols linIndex) (get_col_idx numCols linIndex) (count_filled gc);
          Some (True, gd)
        } else Some (False, ga)
      })"

text \<open>
  \<open>remove_terrain\<close> reads and clears the tile with no check of the index, restores the
  river head from \<open>oldHeadLoc\<close> when the head is removed, and decrements the neighbours'
  counter of the removed kind.
\<close>

definition remove_terrain :: "int \<Rightarrow> int \<Rightarrow> int \<Rightarrow> Grid \<Rightarrow> Grid option" where
  "remove_terrain numRows numCols linIndex g = do {
     let headLoc0 = headLoc (river g);
     let i = get_row_idx numCols linIndex;
     let j = get_col_idx numCols linIndex;
     t \<leftarrow> tile_at numRows numCols g i j;
     let oldType = type t;
     g1 \<leftarrow> tile_upd numRows numCols (\<lambda>t. t\<lparr>type := LHO_EMPTY\<rparr>) i j g;
     let g2 = (if terrain_code oldType > terrain_code LHO_EMPTY
               then g1\<lparr>numFilledTiles := numFilledTiles g1 - 1\<rparr> else g1);
     let g3 = (if headLoc0 = linIndex
               then (let r = (river g2)\<lparr>headLoc := oldHeadLoc (river g2)\<rparr>
                     in g2\<lparr>river := (if headLoc r = -1 then r\<lparr>newRiver := True\<rparr> else r)\<rparr>)
               else g2);
     if oldType = LHO_RIVER
     then upd_neighbours numRows numCols (\<lambda>t. t\<lparr>numAdjRivers := numAdjRivers t - 1\<rparr>) i j g3
     else if oldType = LHO_LANDSCAPE
     then upd_neighbours numRows numCols (\<lambda>t. t\<lparr>numAdjLands := numAdjLands t - 1\<rparr>) i j g3
     else Some g3
   }"

section \<open>Scoring\<close>

text \<open>
  The statics that \<open>init_landscape\<close> sets; before the call they hold the zero of a C static.
\<close>

record Land =
  landChoice :: Landscape
  landValue :: int
  maxTileVal :: int

definition static_land :: Land where
  "static_land = \<lparr>landChoice = LHO_MEADOW, landValue = 0, maxTileVal = 0\<rparr>"

definition LHO_MEADOWVAL :: int where "LHO_MEADOWVAL = 3"
definition LHO_THICKETVAL :: int where "LHO_THICKETVAL = 2"
definition LHO_MOUNTAINVAL :: int where "LHO_MOUNTAINVAL = 6"
definition LHO_SUBURBVAL :: int where "LHO_SUBURBVAL = 1"

definition init_landscape :: "int \<Rightarrow> Land \<Rightarrow> Land" where
  "init_landscape choice ld =
     (if choice = 0 then
        \<lparr>landChoice = LHO_MEADOW, landValue = LHO_MEADOWVAL, maxTileVal = 3 * LHO_MEADOWVAL\<rparr>
      else if choice = 1 then
        \<lparr>landChoice = LHO_THICKET, landValue = LHO_THICKETVAL, maxTileVal = 3 * LHO_THICKETVAL\<rparr>
      else if choice = 2 then
        \<lparr>landChoice = LHO_MOUNTAIN, landValue = LHO_MOUNTAINVAL, maxTileVal = 4 * LHO_MOUNTAINVAL\<rparr>
      else if choice = 3 then
        \<lparr>landChoice = LHO_SUBURB, landValue = LHO_SUBURBVAL, maxTileVal = 3 * LHO_SUBURBVAL\<rparr>
      else ld)"

text \<open>
  The two nested \<open>for\<close> loops of the three value functions: rows, then columns, with the
  running \<open>val\<close> as accumulator; \<open>body t v\<close> is the new \<open>val\<close> after tile \<open>t\<close>.
\<close>

definition for_tiles :: "int \<Rightarrow> int \<Rightarrow> Grid \<Rightarrow> (Tile \<Rightarrow> int \<Rightarrow> int) \<Rightarrow> int option" where
  "for_tiles numRows numCols g body =
     fold (\<lambda>i. fold (\<lambda>j acc. do {
                        v \<leftarrow> acc;
                        t \<leftarrow> tile_at numRows numCols g (int i) (int j);
                        Some (body t v)
                      }) [0..<nat numCols])
          [0..<nat numRows] (Some 0)"

definition val_calc_meadow_thicket :: "Land \<Rightarrow> int \<Rightarrow> int \<Rightarrow> Grid \<Rightarrow> int option" where
  "val_calc_meadow_thicket ld numRows numCols g =
     for_tiles numRows numCols g (\<lambda>t v.
       if type t = LHO_LANDSCAPE then
         (let numRivers = numAdjRivers t in
          if numRivers = 0 then v + landValue ld else v + (landValue ld * 2) * numRivers)
       else v)"

definition val_calc_suburb :: "Land \<Rightarrow> int \<Rightarrow> int \<Rightarrow> Grid \<Rightarrow> int option" where
  "val_calc_suburb ld numRows numCols g =
     for_tiles numRows numCols g (\<lambda>t v.
       if type t = LHO_LANDSCAPE then
         (let numRivers = numAdjRivers t; numSuburbs = numAdjLands t in
          if numSuburbs = 4 then v + 2 * landValue ld
          else if numRivers \<noteq> 0 then v + (landValue ld * 2) * numRivers
          else v + landValue ld)
       else v)"

definition val_calc_mountain :: "Land \<Rightarrow> int \<Rightarrow> int \<Rightarrow> Grid \<Rightarrow> int option" where
  "val_calc_mountain ld numRows numCols g =
     for_tiles numRows numCols g (\<lambda>t v.
       if type t = LHO_LANDSCAPE then
         (let numRivers = numAdjRivers t; numMountains = numAdjLands t in
          (v + numMountains * landValue ld) + numMountains * numRivers * landValue ld)
       else v)"

definition val_calc :: "Land \<Rightarrow> int \<Rightarrow> int \<Rightarrow> Grid \<Rightarrow> int option" where
  "val_calc ld numRows numCols g =
     (case landChoice ld of
        LHO_MEADOW \<Rightarrow> val_calc_meadow_thicket ld numRows numCols g
      | LHO_THICKET \<Rightarrow> val_calc_meadow_thicket ld numRows numCols g
      | LHO_SUBURB \<Rightarrow> val_calc_suburb ld numRows numCols g
      | LHO_MOUNTAIN \<Rightarrow> val_calc_mountain ld numRows numCols g)"

section \<open>Heuristic seed\<close>

text \<open>
  One pass of the body of the \<open>while\<close> loop after the river tile is written: the \<open>switch\<close> on
  the local direction and the two turns at the bottom and top edge.
\<close>

definition zig_step :: "int \<Rightarrow> bool \<Rightarrow> int \<times> int \<times> ZigZag \<times> ZigZag \<times> ZigZag \<Rightarrow>
    int \<times> int \<times> ZigZag \<times> ZigZag \<times> ZigZag" where
  "zig_step numRows firstLoop s =
     (case s of (i, j, zigLocalDir, zigNextDir, zigOverallDir) \<Rightarrow>
       (let turn = (if zigOverallDir = LHO_DOWN then LHO_DOWN else LHO_UP);
            (i1, j1, local1, next1) =
              (case zigLocalDir of
                 LHO_RIGHT \<Rightarrow> (i, j + 1, zigNextDir, turn)
               | LHO_LEFT \<Rightarrow> (i, j - 1, zigNextDir, turn)
               | LHO_DOWN \<Rightarrow> (i + 1, j, LHO_RIGHT, zigNextDir)
               | LHO_UP \<Rightarrow> (i - 1, j, LHO_RIGHT, zigNextDir));
            (i2, next2, overall2) =
              (if i1 = numRows then (i1 - 2, LHO_UP, LHO_UP) else (i1, next1, zigOverallDir));
            (i3, next3, overall3) =
              (if i2 = -1 \<and> \<not> firstLoop then (i2 + 2, LHO_DOWN, LHO_DOWN)
               else (i2, next2, overall2))
        in (i3, j1, local1, next3, overall3)))"

definition left_turns :: "ZigZag \<Rightarrow> ZigZag \<Rightarrow> nat" where
  "left_turns l n = (if l = LHO_LEFT then 1 else 0) + (if n = LHO_LEFT then 1 else 0)"

function heuristic_loop :: "int \<Rightarrow> int \<Rightarrow> bool \<Rightarrow> int \<times> int \<times> ZigZag \<times> ZigZag \<times> ZigZag \<Rightarrow>
    Grid \<Rightarrow> Grid option" where
  "heuristic_loop numRows numCols firstLoop (i, j, l, n, ov) g =
     (case tile_upd numRows numCols (\<lambda>t. t\<lparr>type := LHO_RIVER\<rparr>) i j g of
        None \<Rightarrow> None
      | Some g1 \<Rightarrow>
          if j = numCols - 1 then Some g1
          else heuristic_loop numRows numCols False (zig_step numRows firstLoop (i, j, l, n, ov)) g1)"
  by pat_completeness auto
termination
proof (relation "measures
    [\<lambda>(numRows, numCols, firstLoop, (i, j, l, n, ov), g). left_turns l n,
     \<lambda>(numRows, numCols, firstLoop, (i, j, l, n, ov), g). nat (numCols - j),
     \<lambda>(numRows, numCols, firstLoop, (i, j, l, n, ov), g). (if l = LHO_UP \<or> l = LHO_DOWN then 1 else 0)]")
  show "wf (measures
    [\<lambda>(numRows, numCols, firstLoop, (i, j, l, n, ov), g). left_turns l n,
     \<lambda>(numRows, numCols, firstLoop, (i, j, l, n, ov), g). nat (numCols - j),
     \<lambda>(numRows, numCols, firstLoop, (i, j, l, n, ov), g). (if l = LHO_UP \<or> l = LHO_DOWN then 1 else (0::nat))])"
    by simp
next
  fix numRows numCols :: int and firstLoop :: bool and i j :: int and l n ov :: ZigZag
    and g g1 :: Grid
  assume u: "tile_upd numRows numCols (\<lambda>t. t\<lparr>type := LHO_RIVER\<rparr>) i j g = Some g1"
    and nd: "j \<noteq> numCols - 1"
  from u have "j < numCols" by (auto simp: tile_upd_def in_array_def split: if_splits)
  then show "((numRows, numCols, False, zig_step numRows firstLoop (i, j, l, n, ov), g1),
              (numRows, numCols, firstLoop, (i, j, l, n, ov), g)) \<in> measures
    [\<lambda>(numRows, numCols, firstLoop, (i, j, l, n, ov), g). left_turns l n,
     \<lambda>(numRows, numCols, firstLoop, (i, j, l, n, ov), g). nat (numCols - j),
     \<lambda>(numRows, numCols, firstLoop, (i, j, l, n, ov), g). (if l = LHO_UP \<or> l = LHO_DOWN then 1 else 0)]"
    using nd by (cases l; cases n) (auto simp: zig_step_def left_turns_def Let_def)
qed

text \<open>
  \<open>heuristic_grid\<close>: every tile is made landscape (the counters are not touched), then the
  zig-zag river is drawn from the top left corner.
\<close>

definition heuristic_grid :: "int \<Rightarrow> int \<Rightarrow> Grid \<Rightarrow> Grid option" where
  "heuristic_grid numRows numCols g =
     heuristic_loop numRows numCols True (0, 0, LHO_RIGHT, LHO_DOWN, LHO_DOWN)
       (g\<lparr>grid := map (map (\<lambda>t. t\<lparr>type := LHO_LANDSCAPE\<rparr>)) (grid g)\<rparr>)"

section \<open>Branch-and-bound search\<close>

text \<open>
  The statics of the search. \<open>bestVal_log\<close> and \<open>pruned_log\<close> are not variables of the
  program: they record the run, so that properties of the whole run can be stated.
  \<open>bestVal_log\<close> holds, oldest first, every value that \<open>bestVal\<close> has held; \<open>pruned_log\<close> holds,
  oldest first, every grid on which a call returned at the pruning test, with the value of
  \<open>bestVal\<close> at that moment.
\<close>

record SearchState =
  bestVal :: int
  recursion_depth :: int
  initial_recursion :: bool
  bestVal_log :: "int list"
  pruned_log :: "(int \<times> Grid) list"

definition initial_state :: SearchState where
  "initial_state =
     \<lparr>bestVal = -1, recursion_depth = 0, initial_recursion = True, bestVal_log = [-1],
      pruned_log = []\<rparr>"

definition set_bestVal :: "int \<Rightarrow> SearchState \<Rightarrow> SearchState" where
  "set_bestVal v st = st\<lparr>bestVal := v, bestVal_log := bestVal_log st @ [v]\<rparr>"

text \<open>The locals of one call of \<open>recurse_grid\<close>.\<close>

record Locals =
  thisGrid :: Grid
  tempGrid :: Grid
  bestGrid :: Grid
  currentBest :: int

text \<open>
  A call ends with the grid it leaves in \<open>*grid\<close>, or at an access outside the tile array, or
  because the model's recursion budget is used up.
\<close>

datatype fault = OutOfBounds | OutOfFuel

text \<open>The block run on the first call only: the heuristic grid seeds \<open>bestVal\<close>.\<close>

definition seed_best :: "Land \<Rightarrow> int \<Rightarrow> int \<Rightarrow> Locals \<Rightarrow> SearchState \<Rightarrow>
    (fault + Locals) \<times> SearchState" where
  "seed_best ld numRows numCols loc st =
     (if initial_recursion st then
        (case heuristic_grid numRows numCols (tempGrid loc) of
           None \<Rightarrow> (Inl OutOfBounds, st)
         | Some temp \<Rightarrow>
             (case val_calc ld numRows numCols temp of
                None \<Rightarrow> (Inl OutOfBounds, st)
              | Some v \<Rightarrow>
                  (Inr (loc\<lparr>tempGrid := temp, currentBest := v, bestGrid := temp\<rparr>),
                   (set_bestVal v st)\<lparr>initial_recursion := False\<rparr>)))
      else (Inr loc, st))"

text \<open>
  One branch of the inner loop, after \<open>add_river\<close> or \<open>add_land\<close> has been called on
  \<open>thisGrid\<close> with result \<open>added\<close>: copy to \<open>tempGrid\<close>, undo on \<open>thisGrid\<close>, recurse on
  \<open>tempGrid\<close>, and keep the result when it beats \<open>currentBest\<close>.
\<close>

definition explore :: "(Grid \<Rightarrow> SearchState \<Rightarrow> (fault + Grid) \<times> SearchState) \<Rightarrow> Land \<Rightarrow> int \<Rightarrow> int \<Rightarrow>
    int \<Rightarrow> (bool \<times> Grid) option \<Rightarrow> Locals \<Rightarrow> SearchState \<Rightarrow> (fault + Locals) \<times> SearchState" where
  "explore recurse ld numRows numCols i added loc st =
     (case added of
        None \<Rightarrow> (Inl OutOfBounds, st)
      | Some (ok, tg) \<Rightarrow>
          if \<not> ok then (Inr (loc\<lparr>thisGrid := tg\<rparr>), st)
          else
            (case remove_terrain numRows numCols i tg of
               None \<Rightarrow> (Inl OutOfBounds, st)
             | Some tg' \<Rightarrow>
                 (case recurse tg (st\<lparr>recursion_depth := recursion_depth st + 1\<rparr>) of
                    (Inl e, st1) \<Rightarrow> (Inl e, st1)
                  | (Inr temp, st1) \<Rightarrow>
                      (case val_calc ld numRows numCols temp of
                         None \<Rightarrow> (Inl OutOfBounds, st1)
                       | Some v \<Rightarrow>
                           (let loc1 = loc\<lparr>thisGrid := tg', tempGrid := temp\<rparr>;
                                loc2 = (if v > currentBest loc1
                                        then loc1\<lparr>currentBest := v, bestGrid := temp\<rparr> else loc1);
                                st2 = (if v > currentBest loc1 then set_bestVal v st1 else st1)
                            in (Inr loc2, st2\<lparr>recursion_depth := recursion_depth st2 - 1\<rparr>))))))"

text \<open>The body of the loop over the cell index: the river branch, then the landscape branch.\<close>

definition search_cell :: "(Grid \<Rightarrow> SearchState \<Rightarrow> (fault + Grid) \<times> SearchState) \<Rightarrow> Land \<Rightarrow> int \<Rightarrow> int \<Rightarrow>
    int \<Rightarrow> (fault + Locals) \<times> SearchState \<Rightarrow> (fault + Locals) \<times> SearchState" where
  "search_cell recurse ld numRows numCols i s =
     (case s of
        (Inl e, st) \<Rightarrow> (Inl e, st)
      | (Inr loc, st) \<Rightarrow>
          (case explore recurse ld numRows numCols i
                  (add_river numRows numCols i (thisGrid loc)) loc st of
             (Inl e, st1) \<Rightarrow> (Inl e, st1)
           | (Inr loc1, st1) \<Rightarrow>
               explore recurse ld numRows numCols i
                 (add_land numRows numCols i (thisGrid loc1)) loc1 st1))"

text \<open>
  \<open>recurse_grid\<close>, with the depth of the recursion bounded by the first argument.
\<close>

primrec recurse_grid :: "nat \<Rightarrow> Land \<Rightarrow> int \<Rightarrow> int \<Rightarrow> Grid \<Rightarrow> SearchState \<Rightarrow>
    (fault + Grid) \<times> SearchState" where
  "recurse_grid 0 ld numRows numCols g st = (Inl OutOfFuel, st)"
| "recurse_grid (Suc fuel) ld numRows numCols g st =
     (if full g then (Inr g, st)
      else
        (case val_calc ld numRows numCols g of
           None \<Rightarrow> (Inl OutOfBounds, st)
         | Some v \<Rightarrow>
             (let maxRemaining = maxTileVal ld * (maxTiles g - numFilledTiles g) in
              if v + maxRemaining \<le> bestVal st
              then (Inr g, st\<lparr>pruned_log := pruned_log st @ [(bestVal st, g)]\<rparr>)
              else
                (case fold (\<lambda>i. search_cell (recurse_grid fuel ld numRows numCols) ld numRows numCols (int i))
                        [0..<nat (numRows * numCols)]
                        (seed_best ld numRows numCols
                           \<lparr>thisGrid = g, tempGrid = allocate_grid numRows numCols,
                            bestGrid = g, currentBest = bestVal st\<rparr> st) of
                   (Inl e, st1) \<Rightarrow> (Inl e, st1)
                 | (Inr loc, st1) \<Rightarrow> (Inr (bestGrid loc), st1)))))"

section \<open>Properties of grids\<close>

text \<open>The number of tiles whose kind is not empty.\<close>

definition num_nonempty :: "Grid \<Rightarrow> int" where
  "num_nonempty g = sum_list (map (\<lambda>row. int (length (filter (\<lambda>t. type t \<noteq> LHO_EMPTY) row))) (grid g))"

definition fill_inv :: "int \<Rightarrow> int \<Rightarrow> Grid \<Rightarrow> bool" where
  "fill_inv numRows numCols g \<longleftrightarrow>
     maxTiles g = numRows * numCols \<and> numFilledTiles g = num_nonempty g \<and>
     (full g \<longleftrightarrow> numFilledTiles g = maxTiles g)"

text \<open>
  Neighbour counts taken from the tile kinds: \<open>count_kind k g cells\<close> is the number of
  \<open>cells\<close> inside the grid whose kind is \<open>k\<close>.
\<close>

definition kind_at :: "int \<Rightarrow> int \<Rightarrow> Grid \<Rightarrow> int \<Rightarrow> int \<Rightarrow> Terrain option" where
  "kind_at numRows numCols g i j = map_option type (tile_at numRows numCols g i j)"

definition count_kind :: "Terrain \<Rightarrow> int \<Rightarrow> int \<Rightarrow> Grid \<Rightarrow> (int \<times> int) list \<Rightarrow> int" where
  "count_kind k numRows numCols g cells =
     int (length (filter (\<lambda>(a, b). kind_at numRows numCols g a b = Some k) cells))"

definition orthogonal :: "int \<Rightarrow> int \<Rightarrow> (int \<times> int) list" where
  "orthogonal i j = [(i - 1, j), (i + 1, j), (i, j - 1), (i, j + 1)]"

definition diagonal :: "int \<Rightarrow> int \<Rightarrow> (int \<times> int) list" where
  "diagonal i j = [(i - 1, j - 1), (i - 1, j + 1), (i + 1, j - 1), (i + 1, j + 1)]"

text \<open>
  The tile kinds determine the counters: each tile's \<open>numAdjRivers\<close> and \<open>numAdjLands\<close> are
  the numbers of its orthogonal neighbours that are river and landscape.
\<close>

definition counters_consistent :: "int \<Rightarrow> int \<Rightarrow> Grid \<Rightarrow> bool" where
  "counters_consistent numRows numCols g \<longleftrightarrow>
     list_all (\<lambda>i. list_all (\<lambda>j.
         (case tile_at numRows numCols g (int i) (int j) of
            None \<Rightarrow> False
          | Some t \<Rightarrow>
              numAdjRivers t = count_kind LHO_RIVER numRows numCols g (orthogonal (int i) (int j)) \<and>
              numAdjLands t = count_kind LHO_LANDSCAPE numRows numCols g (orthogonal (int i) (int j))))
       [0..<nat numCols]) [0..<nat numRows]"

text \<open>
  The mountain formula written over the tile kinds: the sum over the landscape tiles of
  \<open>adjL * v + adjL * adjR * v\<close>, where \<open>adjR\<close> counts the orthogonal river neighbours and
  \<open>adjL\<close> the landscape tiles among \<open>lands i j\<close>.
\<close>

definition mountain_formula :: "(int \<Rightarrow> int \<Rightarrow> (int \<times> int) list) \<Rightarrow> Land \<Rightarrow> int \<Rightarrow> int \<Rightarrow> Grid \<Rightarrow> int" where
  "mountain_formula lands ld numRows numCols g =
     sum_list (map (\<lambda>i. sum_list (map (\<lambda>j.
         if kind_at numRows numCols g (int i) (int j) = Some LHO_LANDSCAPE then
           (let adjL = count_kind LHO_LANDSCAPE numRows numCols g (lands (int i) (int j));
                adjR = count_kind LHO_RIVER numRows numCols g (orthogonal (int i) (int j))
            in adjL * landValue ld + adjL * adjR * landValue ld)
         else 0)
       [0..<nat numCols])) [0..<nat numRows])"

text \<open>The neighbourhood of the specification's mountain rule: orthogonal and diagonal.\<close>

definition spec_mountain_neighbours :: "int \<Rightarrow> int \<Rightarrow> (int \<times> int) list" where
  "spec_mountain_neighbours i j = orthogonal i j @ diagonal i j"

section \<open>Sequences of river calls\<close>

datatype river_call = Place int | Remove int

text \<open>
  A sequence of calls of \<open>add_river\<close> and \<open>remove_terrain\<close> in which every \<open>add_river\<close> is
  accepted; \<open>None\<close> when one is rejected or a call leaves the array.
\<close>

fun run_calls :: "int \<Rightarrow> int \<Rightarrow> river_call list \<Rightarrow> Grid \<Rightarrow> Grid option" where
  "run_calls numRows numCols [] g = Some g"
| "run_calls numRows numCols (Place i # cs) g =
     (case add_river numRows numCols i g of
        Some (True, g') \<Rightarrow> run_calls numRows numCols cs g'
      | _ \<Rightarrow> None)"
| "run_calls numRows numCols (Remove i # cs) g =
     (case remove_terrain numRows numCols i g of
        Some g' \<Rightarrow> run_calls numRows numCols cs g'
      | None \<Rightarrow> None)"

text \<open>
  The discipline of the search: a removal only undoes the placement made by the call just
  before it. \<open>placed\<close> lists the cells whose placement was not undone.
\<close>

fun removes_undo :: "river_call list \<Rightarrow> bool" where
  "removes_undo [] = True"
| "removes_undo (Place i # Remove k # cs) = (i = k \<and> removes_undo cs)"
| "removes_undo (Place i # cs) = removes_undo cs"
| "removes_undo (Remove k # cs) = False"

fun placed :: "river_call list \<Rightarrow> int list" where
  "placed [] = []"
| "placed (Place i # Remove k # cs) = placed cs"
| "placed (Place i # cs) = i # placed cs"
| "placed (Remove k # cs) = placed cs"

definition river_cells :: "int \<Rightarrow> int \<Rightarrow> Grid \<Rightarrow> int list" where
  "river_cells numRows numCols g =
     filter (\<lambda>k. kind_at numRows numCols g (get_row_idx numCols k) (get_col_idx numCols k) = Some LHO_RIVER)
       (map int [0..<nat (numRows * numCols)])"

text \<open>
  The river tiles are exactly the cells of \<open>p\<close>, a simple path of orthogonal steps that starts
  on the border.
\<close>

definition is_river_path :: "int \<Rightarrow> int \<Rightarrow> Grid \<Rightarrow> int list \<Rightarrow> bool" where
  "is_river_path numRows numCols g p \<longleftrightarrow>
     distinct p \<and> set p = set (river_cells numRows numCols g) \<and>
     successively (adjacent_cells numCols) p \<and>
     (p \<noteq> [] \<longrightarrow> on_border numRows numCols (hd p))"

section \<open>Auxiliary definitions for the proofs\<close>

text \<open>
  What \<open>remove_terrain\<close> does to a neighbour of a removed tile of kind \<open>k\<close>, and to the river
  cursor.
\<close>

definition dec_counter :: "Terrain \<Rightarrow> Tile \<Rightarrow> Tile" where
  "dec_counter k t =
     (case k of
        LHO_RIVER \<Rightarrow> t\<lparr>numAdjRivers := numAdjRivers t - 1\<rparr>
      | LHO_LANDSCAPE \<Rightarrow> t\<lparr>numAdjLands := numAdjLands t - 1\<rparr>
      | LHO_EMPTY \<Rightarrow> t)"

definition restore_head :: "int \<Rightarrow> River \<Rightarrow> River" where
  "restore_head linIndex r =
     (if headLoc r = linIndex
      then \<lparr>headLoc = oldHeadLoc r, oldHeadLoc = oldHeadLoc r,
            newRiver = (newRiver r \<or> oldHeadLoc r = -1)\<rparr>
      else r)"


text \<open>A sequence of accepted \<open>add_land\<close> calls.\<close>

fun add_lands :: "int \<Rightarrow> int \<Rightarrow> int list \<Rightarrow> Grid \<Rightarrow> Grid option" where
  "add_lands numRows numCols [] g = Some g"
| "add_lands numRows numCols (i # is) g =
     (case add_land numRows numCols i g of
        Some (True, g') \<Rightarrow> add_lands numRows numCols is g'
      | _ \<Rightarrow> None)"

text \<open>Example grids, written out; each is built by the operations from an empty grid.\<close>

definition land_corner :: Grid where
  "land_corner =
     \<lparr>grid = [[\<lparr>type = LHO_LANDSCAPE, numAdjRivers = 0, numAdjLands = 0\<rparr>,
               \<lparr>type = LHO_EMPTY, numAdjRivers = 0, numAdjLands = 1\<rparr>,
               \<lparr>type = LHO_EMPTY, numAdjRivers = 0, numAdjLands = 0\<rparr>],
              [\<lparr>type = LHO_EMPTY, numAdjRivers = 0, numAdjLands = 1\<rparr>,
               \<lparr>type = LHO_EMPTY, numAdjRivers = 0, numAdjLands = 0\<rparr>,
               \<lparr>type = LHO_EMPTY, numAdjRivers = 0, numAdjLands = 0\<rparr>],
              [\<lparr>type = LHO_EMPTY, numAdjRivers = 0, numAdjLands = 0\<rparr>,
               \<lparr>type = LHO_EMPTY, numAdjRivers = 0, numAdjLands = 0\<rparr>,
               \<lparr>type = LHO_EMPTY, numAdjRivers = 0, numAdjLands = 0\<rparr>]],
      river = \<lparr>headLoc = -1, oldHeadLoc = -1, newRiver = True\<rparr>,
      numFilledTiles = 1, maxTiles = 9, full = False, val = -1\<rparr>"

definition river_pair :: Grid where
  "river_pair =
     \<lparr>grid = [[\<lparr>type = LHO_RIVER, numAdjRivers = 1, numAdjLands = 0\<rparr>,
               \<lparr>type = LHO_RIVER, numAdjRivers = 1, numAdjLands = 0\<rparr>,
               \<lparr>type = LHO_EMPTY, numAdjRivers = 1, numAdjLands = 0\<rparr>]],
      river = \<lparr>headLoc = 1, oldHeadLoc = 0, newRiver = False\<rparr>,
      numFilledTiles = 2, maxTiles = 3, full = False, val = -1\<rparr>"

text \<open>The contribution of a tile to the fill count.\<close>

definition filled :: "Tile \<Rightarrow> int" where
  "filled t = (if type t \<noteq> LHO_EMPTY then 1 else 0)"

definition mountain_land :: Land where
  "mountain_land = init_landscape 2 static_land"

definition meadow_land :: Land where
  "meadow_land = init_landscape 0 static_land"

definition diag_lands :: Grid where
  "diag_lands =
     \<lparr>grid = [[\<lparr>type = LHO_LANDSCAPE, numAdjRivers = 0, numAdjLands = 0\<rparr>,
               \<lparr>type = LHO_EMPTY, numAdjRivers = 0, numAdjLands = 2\<rparr>],
              [\<lparr>type = LHO_EMPTY, numAdjRivers = 0, numAdjLands = 2\<rparr>,
               \<lparr>type = LHO_LANDSCAPE, numAdjRivers = 0, numAdjLands = 0\<rparr>]],
      river = \<lparr>headLoc = -1, oldHeadLoc = -1, newRiver = True\<rparr>,
      numFilledTiles = 2, maxTiles = 4, full = False, val = -1\<rparr>"

definition bound_grid :: Grid where
  "bound_grid =
     \<lparr>grid = [[\<lparr>type = LHO_LANDSCAPE, numAdjRivers = 0, numAdjLands = 2\<rparr>,
               \<lparr>type = LHO_LANDSCAPE, numAdjRivers = 0, numAdjLands = 2\<rparr>,
               \<lparr>type = LHO_LANDSCAPE, numAdjRivers = 0, numAdjLands = 2\<rparr>],
              [\<lparr>type = LHO_LANDSCAPE, numAdjRivers = 0, numAdjLands = 2\<rparr>,
               \<lparr>type = LHO_EMPTY, numAdjRivers = 1, numAdjLands = 3\<rparr>,
               \<lparr>type = LHO_LANDSCAPE, numAdjRivers = 1, numAdjLands = 1\<rparr>],
              [\<lparr>type = LHO_LANDSCAPE, numAdjRivers = 1, numAdjLands = 1\<rparr>,
               \<lparr>type = LHO_RIVER, numAdjRivers = 1, numAdjLands = 1\<rparr>,
               \<lparr>type = LHO_RIVER, numAdjRivers = 1, numAdjLands = 1\<rparr>]],
      river = \<lparr>headLoc = 7, oldHeadLoc = 8, newRiver = False\<rparr>,
      numFilledTiles = 8, maxTiles = 9, full = False, val = -1\<rparr>"


text \<open>The contribution of one tile to the mountain score, from its counters.\<close>

definition mountain_tile :: "Land \<Rightarrow> Tile \<Rightarrow> int" where
  "mountain_tile ld t =
     (if type t = LHO_LANDSCAPE
      then numAdjLands t * landValue ld + numAdjLands t * numAdjRivers t * landValue ld
      else 0)"

text \<open>
  Any sequence of calls of the three operations, accepted or not; \<open>None\<close> when a call leaves
  the tile array.
\<close>

datatype grid_call = AddRiver int | AddLand int | RemoveTerrain int

fun run_grid_calls :: "int \<Rightarrow> int \<Rightarrow> grid_call list \<Rightarrow> Grid \<Rightarrow> Grid option" where
  "run_grid_calls numRows numCols [] g = Some g"
| "run_grid_calls numRows numCols (AddRiver i # cs) g =
     (case add_river numRows numCols i g of
        Some (ok, g') \<Rightarrow> run_grid_calls numRows numCols cs g'
      | None \<Rightarrow> None)"
| "run_grid_calls numRows numCols (AddLand i # cs) g =
     (case add_land numRows numCols i g of
        Some (ok, g') \<Rightarrow> run_grid_calls numRows numCols cs g'
      | None \<Rightarrow> None)"
| "run_grid_calls numRows numCols (RemoveTerrain i # cs) g =
     (case remove_terrain numRows numCols i g of
        Some g' \<Rightarrow> run_grid_calls numRows numCols cs g'
      | None \<Rightarrow> None)"

text \<open>
  The invariant of the river: the river tiles are the cells of the path \<open>p\<close>, whose last cell
  is the head; no river is started exactly when the path is empty.
\<close>

definition river_inv :: "int \<Rightarrow> int \<Rightarrow> Grid \<Rightarrow> int list \<Rightarrow> bool" where
  "river_inv numRows numCols g p \<longleftrightarrow>
     wf_grid numRows numCols g \<and> is_river_path numRows numCols g p \<and>
     headLoc (river g) = (if p = [] then -1 else last p) \<and>
     newRiver (river g) = (p = [])"

definition pruned_node :: Grid where
  "pruned_node =
     \<lparr>grid = [[\<lparr>type = LHO_RIVER, numAdjRivers = 0, numAdjLands = 2\<rparr>,
               \<lparr>type = LHO_LANDSCAPE, numAdjRivers = 1, numAdjLands = 0\<rparr>],
              [\<lparr>type = LHO_LANDSCAPE, numAdjRivers = 1, numAdjLands = 0\<rparr>,
               \<lparr>type = LHO_EMPTY, numAdjRivers = 0, numAdjLands = 2\<rparr>]],
      river = \<lparr>headLoc = 0, oldHeadLoc = 0, newRiver = False\<rparr>,
      numFilledTiles = 3, maxTiles = 4, full = False, val = -1\<rparr>"

text \<open>
  The contribution of one tile to the value of the grid: what the body of the loops of
  \<open>val_calc_meadow_thicket\<close>, \<open>val_calc_suburb\<close> and \<open>val_calc_mountain\<close> adds to \<open>val\<close>.
\<close>

definition tile_score :: "Land \<Rightarrow> Tile \<Rightarrow> int" where
  "tile_score ld t =
     (if type t \<noteq> LHO_LANDSCAPE then 0
      else case landChoice ld of
        LHO_MOUNTAIN \<Rightarrow> mountain_tile ld t
      | LHO_SUBURB \<Rightarrow>
          (if numAdjLands t = 4 then 2 * landValue ld
           else if numAdjRivers t \<noteq> 0 then (landValue ld * 2) * numAdjRivers t
           else landValue ld)
      | _ \<Rightarrow>
          (if numAdjRivers t = 0 then landValue ld else (landValue ld * 2) * numAdjRivers t))"

text \<open>Every adjacency counter of the grid is zero, as \<open>allocate_grid\<close> leaves them.\<close>

definition zero_counters :: "Grid \<Rightarrow> bool" where
  "zero_counters g \<longleftrightarrow>
     (\<forall>row \<in> set (grid g). \<forall>t \<in> set row. numAdjRivers t = 0 \<and> numAdjLands t = 0)"

text \<open>
  The run that \<open>main\<close> starts: \<open>init_landscape\<close> on the choice read, \<open>allocate_grid\<close>, and
  the top-level call of \<open>recurse_grid\<close> with the statics at their initial values.
\<close>

definition search_run :: "nat \<Rightarrow> int \<Rightarrow> int \<Rightarrow> int \<Rightarrow> (fault + Grid) \<times> SearchState" where
  "search_run fuel rows cols land =
     recurse_grid fuel (init_landscape land static_land) rows cols (allocate_grid rows cols)
       initial_state"

text \<open>
  Invariants of the search. \<open>log_ok\<close>: the record of \<open>bestVal\<close> starts with the initial value,
  ends with the current one and never decreases. \<open>call_ok b\<close>, of the result of a call entered
  with \<open>bestVal = b\<close> after the first call: \<open>bestVal\<close> has not decreased and does not exceed the
  larger of \<open>b\<close> and the value of the grid returned. \<open>loop_ok b\<close>, of the state between two
  iterations of the loop of such a call: \<open>currentBest\<close> equals \<open>bestVal\<close>, and is the value of
  \<open>bestGrid\<close> unless it is still \<open>b\<close>.
\<close>

definition log_ok :: "SearchState \<Rightarrow> bool" where
  "log_ok st \<longleftrightarrow>
     bestVal_log st \<noteq> [] \<and> hd (bestVal_log st) = hd (bestVal_log initial_state) \<and>
     last (bestVal_log st) = bestVal st \<and> sorted (bestVal_log st)"

definition call_ok :: "Land \<Rightarrow> int \<Rightarrow> int \<Rightarrow> int \<Rightarrow> (fault + Grid) \<times> SearchState \<Rightarrow> bool" where
  "call_ok ld numRows numCols b res =
     (case res of
        (r, st') \<Rightarrow>
          log_ok st' \<and> \<not> initial_recursion st' \<and> b \<le> bestVal st' \<and>
          (case r of
             Inl e \<Rightarrow> True
           | Inr g' \<Rightarrow>
               (case val_calc ld numRows numCols g' of
                  None \<Rightarrow> True
                | Some v \<Rightarrow> bestVal st' \<le> max b v)))"

definition loop_ok :: "Land \<Rightarrow> int \<Rightarrow> int \<Rightarrow> int \<Rightarrow> (fault + Locals) \<times> SearchState \<Rightarrow> bool" where
  "loop_ok ld numRows numCols b s =
     (case s of
        (r, st) \<Rightarrow>
          log_ok st \<and> \<not> initial_recursion st \<and> b \<le> bestVal st \<and>
          (case r of
             Inl e \<Rightarrow> True
           | Inr loc \<Rightarrow>
               currentBest loc = bestVal st \<and>
               (val_calc ld numRows numCols (bestGrid loc) = Some (currentBest loc) \<or>
                currentBest loc = b)))"

text \<open>
  Invariants for the depth of the recursion. \<open>node_ok n m\<close>: a well-formed grid with \<open>n\<close> cells
  filled out of \<open>m\<close>. \<open>step_ok n m i\<close>, of the result of \<open>add_river\<close> or \<open>add_land\<close> at index \<open>i\<close>
  on such a grid: an accepted placement fills one more cell, sets \<open>full\<close> when that was the last
  one, and \<open>remove_terrain\<close> at \<open>i\<close> gives back a grid with \<open>n\<close> cells filled; a rejected one
  leaves \<open>n\<close> cells filled. \<open>loop_returns n m\<close>, of the state between two iterations of the loop:
  the recursion budget was not used up and \<open>thisGrid\<close> has \<open>n\<close> cells filled out of \<open>m\<close>.
\<close>

definition node_ok :: "int \<Rightarrow> int \<Rightarrow> int \<Rightarrow> int \<Rightarrow> Grid \<Rightarrow> bool" where
  "node_ok numRows numCols n m g \<longleftrightarrow>
     wf_grid numRows numCols g \<and> numFilledTiles g = n \<and> maxTiles g = m"

definition loop_returns :: "int \<Rightarrow> int \<Rightarrow> int \<Rightarrow> int \<Rightarrow> (fault + Locals) \<times> SearchState \<Rightarrow> bool" where
  "loop_returns numRows numCols n m s =
     (case fst s of
        Inl e \<Rightarrow> e \<noteq> OutOfFuel
      | Inr loc \<Rightarrow> node_ok numRows numCols n m (thisGrid loc))"

definition step_ok :: "int \<Rightarrow> int \<Rightarrow> int \<Rightarrow> int \<Rightarrow> int \<Rightarrow> (bool \<times> Grid) option \<Rightarrow> bool" where
  "step_ok numRows numCols n m i added =
     (case added of
        None \<Rightarrow> True
      | Some (ok, tg) \<Rightarrow>
          if ok then
            node_ok numRows numCols (n + 1) m tg \<and> (n + 1 = m \<longrightarrow> full tg) \<and>
            (case remove_terrain numRows numCols i tg of
               None \<Rightarrow> True
             | Some tg' \<Rightarrow> node_ok numRows numCols n m tg')
          else node_ok numRows numCols n m tg)"

section \<open>The tile array\<close>

lemma wf_grid_nth:
  "wf_grid numRows numCols g \<Longrightarrow> in_array numRows numCols i j \<Longrightarrow>
     nat i < length (grid g) \<and> nat j < length (grid g ! nat i)"
  by (auto simp: wf_grid_def in_array_def list_all_length)

lemma tile_at_Some_iff:
  "(\<exists>t. tile_at numRows numCols g i j = Some t) \<longleftrightarrow> in_array numRows numCols i j"
  by (simp add: tile_at_def)

lemma tile_upd_Some_iff:
  "(\<exists>g'. tile_upd numRows numCols f i j g = Some g') \<longleftrightarrow> in_array numRows numCols i j"
  by (simp add: tile_upd_def)

lemma tile_upd_wf:
  "tile_upd numRows numCols f i j g = Some g' \<Longrightarrow> wf_grid numRows numCols g \<Longrightarrow>
     wf_grid numRows numCols g'"
proof -
  assume u: "tile_upd numRows numCols f i j g = Some g'" and w: "wf_grid numRows numCols g"
  from u have g': "grid g' = (grid g)[nat i := (grid g ! nat i)[nat j := f (grid g ! nat i ! nat j)]]"
    by (auto simp: tile_upd_def split: if_splits)
  have "length (grid g' ! n) = nat numCols" if "n < nat numRows" for n
    using that w by (cases "n = nat i") (auto simp: g' wf_grid_def list_all_length)
  then show ?thesis using w by (simp add: wf_grid_def list_all_length g')
qed

lemma tile_upd_fields:
  "tile_upd numRows numCols f i j g = Some g' \<Longrightarrow>
     river g' = river g \<and> numFilledTiles g' = numFilledTiles g \<and> maxTiles g' = maxTiles g \<and>
     full g' = full g \<and> val g' = val g"
  by (auto simp: tile_upd_def split: if_splits)

lemma tile_at_upd:
  assumes "tile_upd numRows numCols f i j g = Some g'" "wf_grid numRows numCols g"
  shows "tile_at numRows numCols g' a b =
           (if a = i \<and> b = j then map_option f (tile_at numRows numCols g a b)
            else tile_at numRows numCols g a b)"
proof (cases "in_array numRows numCols a b")
  case False
  moreover have "in_array numRows numCols i j"
    using assms(1) by (auto simp: tile_upd_def split: if_splits)
  ultimately show ?thesis by (auto simp: tile_at_def)
next
  case True
  from assms(1) have ij: "in_array numRows numCols i j"
    and g': "g' = g\<lparr>grid := (grid g)[nat i := (grid g ! nat i)[nat j := f (grid g ! nat i ! nat j)]]\<rparr>"
    by (auto simp: tile_upd_def split: if_splits)
  have li: "nat i < length (grid g)" "nat j < length (grid g ! nat i)"
    using wf_grid_nth[OF assms(2) ij] by auto
  have la: "nat a < length (grid g)" "nat b < length (grid g ! nat a)"
    using wf_grid_nth[OF assms(2) True] by auto
  have inj: "nat a = nat i \<longleftrightarrow> a = i" "nat b = nat j \<longleftrightarrow> b = j"
    using True ij by (auto simp: in_array_def)
  have "grid g' ! nat a ! nat b =
          (if a = i \<and> b = j then f (grid g ! nat a ! nat b) else grid g ! nat a ! nat b)"
  proof (cases "a = i")
    case ai: True
    show ?thesis
      using li ai inj(2) by (cases "b = j") (simp_all add: g')
  next
    case ai: False
    then show ?thesis using inj(1) by (simp add: g')
  qed
  then show ?thesis using True ij by (simp add: tile_at_def)
qed

lemma grid_ext:
  assumes "wf_grid numRows numCols g" "wf_grid numRows numCols g'"
    and "\<And>a b. in_array numRows numCols a b \<Longrightarrow>
           tile_at numRows numCols g a b = tile_at numRows numCols g' a b"
  shows "grid g = grid g'"
proof (rule nth_equalityI)
  show "length (grid g) = length (grid g')"
    using assms(1,2) by (simp add: wf_grid_def)
next
  fix r assume r: "r < length (grid g)"
  have r': "r < length (grid g')" using r assms(1,2) by (simp add: wf_grid_def)
  show "grid g ! r = grid g' ! r"
  proof (rule nth_equalityI)
    show "length (grid g ! r) = length (grid g' ! r)"
      using assms(1,2) r r' by (simp add: wf_grid_def list_all_length)
  next
    fix c assume c: "c < length (grid g ! r)"
    have "in_array numRows numCols (int r) (int c)"
      using assms(1) r c by (auto simp: in_array_def wf_grid_def list_all_length)
    from assms(3)[OF this] this show "grid g ! r ! c = grid g' ! r ! c"
      by (simp add: tile_at_def)
  qed
qed


lemma sdiv_nonneg: "0 \<le> (a::int) \<Longrightarrow> 0 < b \<Longrightarrow> a sdiv b = a div b"
  by (simp add: signed_divide_int_def sgn_if)

lemma smod_nonneg: "0 \<le> (a::int) \<Longrightarrow> 0 < b \<Longrightarrow> a smod b = a mod b"
  by (simp add: signed_modulo_int_def sgn_if)

lemma idx_in_array:
  assumes "0 \<le> i" "i < numRows * numCols" "0 < numCols"
  shows "in_array numRows numCols (get_row_idx numCols i) (get_col_idx numCols i)"
proof -
  have "i div numCols < numRows"
  proof (rule ccontr)
    assume "\<not> i div numCols < numRows"
    then have "numRows * numCols \<le> (i div numCols) * numCols"
      using assms by (simp add: mult_right_mono)
    moreover have "(i div numCols) * numCols + i mod numCols = i" by simp
    moreover have "0 \<le> i mod numCols" using assms by simp
    ultimately show False using assms by linarith
  qed
  moreover have "0 \<le> i div numCols" using assms by (simp add: pos_imp_zdiv_nonneg_iff)
  ultimately show ?thesis
    using assms by (simp add: in_array_def get_row_idx_def get_col_idx_def sdiv_nonneg smod_nonneg)
qed

lemma idx_compose: "get_row_idx numCols i * numCols + get_col_idx numCols i = i"
  by (simp add: get_row_idx_def get_col_idx_def sdiv_mult_smod_eq)

lemma idx_not_in_array:
  assumes "i < 0 \<or> i > numRows * numCols - 1" "0 < numCols"
  shows "\<not> in_array numRows numCols (get_row_idx numCols i) (get_col_idx numCols i)"
proof
  assume a: "in_array numRows numCols (get_row_idx numCols i) (get_col_idx numCols i)"
  note e = idx_compose[of numCols i]
  from a have r: "0 \<le> get_row_idx numCols i" "get_row_idx numCols i \<le> numRows - 1"
     and c: "0 \<le> get_col_idx numCols i" "get_col_idx numCols i \<le> numCols - 1"
    by (auto simp: in_array_def)
  have "0 \<le> get_row_idx numCols i * numCols" using r assms by simp
  with c e have "0 \<le> i" by linarith
  moreover have "get_row_idx numCols i * numCols \<le> (numRows - 1) * numCols"
    using r assms by (simp add: mult_right_mono)
  with c e have "i \<le> numRows * numCols - 1" by (simp add: algebra_simps)
  ultimately show False using assms by linarith
qed

lemma idx_inj:
  assumes "get_row_idx numCols a = get_row_idx numCols b" "get_col_idx numCols a = get_col_idx numCols b"
  shows "a = b"
proof -
  have "a = get_row_idx numCols a * numCols + get_col_idx numCols a"
    by (simp only: idx_compose)
  also have "\<dots> = get_row_idx numCols b * numCols + get_col_idx numCols b"
    by (simp only: assms)
  also have "\<dots> = b" by (simp only: idx_compose)
  finally show ?thesis .
qed

subsection \<open>The location check\<close>

lemma chk_loc_outside:
  "linIndex < 0 \<or> linIndex > numRows * numCols - 1 \<Longrightarrow> chk_loc numRows numCols linIndex g = Some False"
  by (simp add: chk_loc_def)

lemma chk_loc_inside:
  assumes "0 \<le> linIndex" "linIndex < numRows * numCols" "0 < numCols"
  shows "chk_loc numRows numCols linIndex g =
           Some (type (grid g ! nat (get_row_idx numCols linIndex) ! nat (get_col_idx numCols linIndex)) = LHO_EMPTY)"
proof -
  have "terrain_code k > terrain_code LHO_EMPTY \<longleftrightarrow> k \<noteq> LHO_EMPTY" for k
    by (cases k) simp_all
  then show ?thesis
    using assms idx_in_array[OF assms] by (simp add: chk_loc_def tile_at_def)
qed

lemma chk_loc_total:
  "0 < numCols \<Longrightarrow> \<exists>b. chk_loc numRows numCols linIndex g = Some b"
  by (cases "linIndex < 0 \<or> linIndex > numRows * numCols - 1")
     (auto simp: chk_loc_outside chk_loc_inside)

lemma chk_loc_True:
  assumes "chk_loc numRows numCols linIndex g = Some True" "0 < numCols"
  shows "0 \<le> linIndex \<and> linIndex < numRows * numCols \<and>
         in_array numRows numCols (get_row_idx numCols linIndex) (get_col_idx numCols linIndex) \<and>
         (\<exists>t. tile_at numRows numCols g (get_row_idx numCols linIndex) (get_col_idx numCols linIndex) = Some t \<and>
              type t = LHO_EMPTY)"
proof -
  have r: "0 \<le> linIndex" "linIndex < numRows * numCols"
    using assms(1) by (auto simp: chk_loc_def split: if_splits)
  from chk_loc_inside[OF r assms(2), of g] assms(1) idx_in_array[OF r assms(2)]
  show ?thesis using r by (simp add: tile_at_def)
qed

lemma chk_loc_river [simp]:
  "chk_loc numRows numCols linIndex (g\<lparr>river := r\<rparr>) = chk_loc numRows numCols linIndex g"
  by (simp add: chk_loc_def tile_at_def)

subsection \<open>Updating the neighbours\<close>

lemma guarded_upd:
  assumes "(if c then tile_upd numRows numCols f x y g else Some g) = Some g'"
    and "wf_grid numRows numCols g" and "\<not> c \<Longrightarrow> \<not> in_array numRows numCols x y"
  shows "wf_grid numRows numCols g'"
    and "river g' = river g" and "numFilledTiles g' = numFilledTiles g"
    and "maxTiles g' = maxTiles g" and "full g' = full g" and "val g' = val g"
    and "tile_at numRows numCols g' a b =
           (if a = x \<and> b = y then map_option f (tile_at numRows numCols g a b)
            else tile_at numRows numCols g a b)"
proof -
  show "wf_grid numRows numCols g'"
    using assms(1,2) tile_upd_wf by (cases c) auto
  have "river g' = river g \<and> numFilledTiles g' = numFilledTiles g \<and>
        maxTiles g' = maxTiles g \<and> full g' = full g \<and> val g' = val g"
  proof (cases c)
    case True
    then show ?thesis using assms(1) tile_upd_fields[of numRows numCols f x y g g'] by simp
  next
    case False
    then show ?thesis using assms(1) by simp
  qed
  then show "river g' = river g" "numFilledTiles g' = numFilledTiles g"
    "maxTiles g' = maxTiles g" "full g' = full g" "val g' = val g"
    by simp_all
  show "tile_at numRows numCols g' a b =
           (if a = x \<and> b = y then map_option f (tile_at numRows numCols g a b)
            else tile_at numRows numCols g a b)"
  proof (cases c)
    case True
    then show ?thesis using assms(1,2) tile_at_upd by simp
  next
    case False
    then have "g' = g" "\<not> in_array numRows numCols x y" using assms(1,3) by auto
    then show ?thesis by (simp add: tile_at_def)
  qed
qed

lemma upd_neighbours_total:
  assumes "in_array numRows numCols i j"
  shows "\<exists>g'. upd_neighbours numRows numCols f i j g = Some g'"
proof -
  have t: "\<exists>g'. (if c then tile_upd numRows numCols f x y h else Some h) = Some g'"
    if "c \<Longrightarrow> in_array numRows numCols x y" for c x y h
    using that by (simp add: tile_upd_def)
  have "i > 0 \<Longrightarrow> in_array numRows numCols (i - 1) j"
    using assms by (simp add: in_array_def)
  from t[OF this] obtain g1 where
    s1: "(if i > 0 then tile_upd numRows numCols f (i - 1) j g else Some g) = Some g1" by blast
  have "i < numRows - 1 \<Longrightarrow> in_array numRows numCols (i + 1) j"
    using assms by (simp add: in_array_def)
  from t[OF this] obtain g2 where
    s2: "(if i < numRows - 1 then tile_upd numRows numCols f (i + 1) j g1 else Some g1) = Some g2"
    by blast
  have "j > 0 \<Longrightarrow> in_array numRows numCols i (j - 1)"
    using assms by (simp add: in_array_def)
  from t[OF this] obtain g3 where
    s3: "(if j > 0 then tile_upd numRows numCols f i (j - 1) g2 else Some g2) = Some g3" by blast
  have "j < numCols - 1 \<Longrightarrow> in_array numRows numCols i (j + 1)"
    using assms by (simp add: in_array_def)
  from t[OF this] obtain g4 where
    s4: "(if j < numCols - 1 then tile_upd numRows numCols f i (j + 1) g3 else Some g3) = Some g4"
    by blast
  show ?thesis
    unfolding upd_neighbours_def by (simp only: s1 s2 s3 s4 Option.bind.simps) simp
qed



lemma upd_neighbours_spec:
  assumes u: "upd_neighbours numRows numCols f i j g = Some g'"
    and w: "wf_grid numRows numCols g" and ij: "in_array numRows numCols i j"
  shows "wf_grid numRows numCols g'"
    and "river g' = river g" and "numFilledTiles g' = numFilledTiles g"
    and "maxTiles g' = maxTiles g" and "full g' = full g" and "val g' = val g"
    and "tile_at numRows numCols g' a b =
           (if (a, b) \<in> set (orthogonal i j) then map_option f (tile_at numRows numCols g a b)
            else tile_at numRows numCols g a b)"
proof -
  from u obtain g1 g2 g3 where
    s1: "(if i > 0 then tile_upd numRows numCols f (i - 1) j g else Some g) = Some g1" and
    s2: "(if i < numRows - 1 then tile_upd numRows numCols f (i + 1) j g1 else Some g1) = Some g2" and
    s3: "(if j > 0 then tile_upd numRows numCols f i (j - 1) g2 else Some g2) = Some g3" and
    s4: "(if j < numCols - 1 then tile_upd numRows numCols f i (j + 1) g3 else Some g3) = Some g'"
    unfolding upd_neighbours_def by (auto simp: Option.bind_eq_Some_conv)
  have n1: "\<not> i > 0 \<Longrightarrow> \<not> in_array numRows numCols (i - 1) j"
    and n2: "\<not> i < numRows - 1 \<Longrightarrow> \<not> in_array numRows numCols (i + 1) j"
    and n3: "\<not> j > 0 \<Longrightarrow> \<not> in_array numRows numCols i (j - 1)"
    and n4: "\<not> j < numCols - 1 \<Longrightarrow> \<not> in_array numRows numCols i (j + 1)"
    by (auto simp: in_array_def)
  note r1 = guarded_upd[OF s1 w n1]
  note r2 = guarded_upd[OF s2 r1(1) n2]
  note r3 = guarded_upd[OF s3 r2(1) n3]
  note r4 = guarded_upd[OF s4 r3(1) n4]
  show "wf_grid numRows numCols g'" by (rule r4(1))
  show "river g' = river g" by (simp add: r1 r2 r3 r4)
  show "numFilledTiles g' = numFilledTiles g" by (simp add: r1 r2 r3 r4)
  show "maxTiles g' = maxTiles g" by (simp add: r1 r2 r3 r4)
  show "full g' = full g" by (simp add: r1 r2 r3 r4)
  show "val g' = val g" by (simp add: r1 r2 r3 r4)
  show "tile_at numRows numCols g' a b =
           (if (a, b) \<in> set (orthogonal i j) then map_option f (tile_at numRows numCols g a b)
            else tile_at numRows numCols g a b)"
    by (simp add: r1(7) r2(7) r3(7) r4(7) orthogonal_def)
qed

section \<open>The operations on well-formed grids\<close>

lemma terrain_code_gt [simp]:
  "terrain_code k > terrain_code LHO_EMPTY \<longleftrightarrow> k \<noteq> LHO_EMPTY"
  "- 1 < terrain_code k \<longleftrightarrow> k \<noteq> LHO_EMPTY"
  by (cases k; simp)+

lemma count_filled_fields [simp]:
  "grid (count_filled g) = grid g" "river (count_filled g) = river g"
  "numFilledTiles (count_filled g) = numFilledTiles g + 1"
  "maxTiles (count_filled g) = maxTiles g" "val (count_filled g) = val g"
  "full (count_filled g) \<longleftrightarrow> full g \<or> numFilledTiles g + 1 = maxTiles g"
  by (simp_all add: count_filled_def Let_def)

lemma tile_at_count_filled [simp]:
  "tile_at numRows numCols (count_filled g) a b = tile_at numRows numCols g a b"
  by (simp add: tile_at_def)

lemma wf_grid_count_filled [simp]:
  "wf_grid numRows numCols (count_filled g) = wf_grid numRows numCols g"
  by (simp add: wf_grid_def)

lemma tile_at_river [simp]:
  "tile_at numRows numCols (g\<lparr>river := r\<rparr>) a b = tile_at numRows numCols g a b"
  by (simp add: tile_at_def)

lemma wf_grid_river [simp]:
  "wf_grid numRows numCols (g\<lparr>river := r\<rparr>) = wf_grid numRows numCols g"
  by (simp add: wf_grid_def)

lemma tile_at_numFilled [simp]:
  "tile_at numRows numCols (g\<lparr>numFilledTiles := n\<rparr>) a b = tile_at numRows numCols g a b"
  by (simp add: tile_at_def)

lemma wf_grid_numFilled [simp]:
  "wf_grid numRows numCols (g\<lparr>numFilledTiles := n\<rparr>) = wf_grid numRows numCols g"
  by (simp add: wf_grid_def)

lemma self_not_orthogonal [simp]: "(i, j) \<notin> set (orthogonal i j)"
  by (simp add: orthogonal_def)

subsection \<open>\<open>add_land\<close>\<close>

lemma add_land_rejected:
  "add_land numRows numCols linIndex g = Some (False, g') \<Longrightarrow>
     g' = g \<and> chk_loc numRows numCols linIndex g = Some False"
  by (auto simp: add_land_def Option.bind_eq_Some_conv Let_def split: if_splits)

lemma add_land_accepted:
  assumes a: "add_land numRows numCols linIndex g = Some (True, g')"
    and w: "wf_grid numRows numCols g" and c: "0 < numCols"
  shows "chk_loc numRows numCols linIndex g = Some True"
    and "wf_grid numRows numCols g'"
    and "river g' = river g" and "numFilledTiles g' = numFilledTiles g + 1"
    and "maxTiles g' = maxTiles g" and "val g' = val g"
    and "full g' \<longleftrightarrow> full g \<or> numFilledTiles g + 1 = maxTiles g"
    and "tile_at numRows numCols g' a b =
           (if (a, b) \<in> set (orthogonal (get_row_idx numCols linIndex) (get_col_idx numCols linIndex))
            then map_option (\<lambda>t. t\<lparr>numAdjLands := numAdjLands t + 1\<rparr>) (tile_at numRows numCols g a b)
            else if a = get_row_idx numCols linIndex \<and> b = get_col_idx numCols linIndex
            then map_option (\<lambda>t. t\<lparr>type := LHO_LANDSCAPE\<rparr>) (tile_at numRows numCols g a b)
            else tile_at numRows numCols g a b)"
proof -
  let ?i = "get_row_idx numCols linIndex" and ?j = "get_col_idx numCols linIndex"
  from a obtain g1 where
    v: "chk_loc numRows numCols linIndex g = Some True" and
    s1: "tile_upd numRows numCols (\<lambda>t. t\<lparr>type := LHO_LANDSCAPE\<rparr>) ?i ?j g = Some g1" and
    s2: "upd_neighbours numRows numCols (\<lambda>t. t\<lparr>numAdjLands := numAdjLands t + 1\<rparr>) ?i ?j
           (count_filled g1) = Some g'"
    by (auto simp: add_land_def Option.bind_eq_Some_conv Let_def split: if_splits)
  from chk_loc_True[OF v c] have ij: "in_array numRows numCols ?i ?j" by simp
  have w1: "wf_grid numRows numCols (count_filled g1)"
    using tile_upd_wf[OF s1 w] by simp
  note f1 = tile_upd_fields[OF s1]
  note r = upd_neighbours_spec[OF s2 w1 ij]
  show "chk_loc numRows numCols linIndex g = Some True" by (rule v)
  show "wf_grid numRows numCols g'" by (rule r(1))
  show "river g' = river g" by (simp add: r f1)
  show "numFilledTiles g' = numFilledTiles g + 1" by (simp add: r f1)
  show "maxTiles g' = maxTiles g" by (simp add: r f1)
  show "val g' = val g" by (simp add: r f1)
  show "full g' \<longleftrightarrow> full g \<or> numFilledTiles g + 1 = maxTiles g" by (simp add: r f1)
  show "tile_at numRows numCols g' a b =
           (if (a, b) \<in> set (orthogonal ?i ?j)
            then map_option (\<lambda>t. t\<lparr>numAdjLands := numAdjLands t + 1\<rparr>) (tile_at numRows numCols g a b)
            else if a = ?i \<and> b = ?j
            then map_option (\<lambda>t. t\<lparr>type := LHO_LANDSCAPE\<rparr>) (tile_at numRows numCols g a b)
            else tile_at numRows numCols g a b)"
    by (simp add: r(7) tile_at_upd[OF s1 w])
qed

lemma add_land_total:
  assumes w: "wf_grid numRows numCols g" and c: "0 < numCols"
  shows "\<exists>b g'. add_land numRows numCols linIndex g = Some (b, g') \<and>
           chk_loc numRows numCols linIndex g = Some b"
proof -
  from chk_loc_total[OF c] obtain v where v: "chk_loc numRows numCols linIndex g = Some v"
    by blast
  show ?thesis
  proof (cases v)
    case False
    then show ?thesis using v by (auto simp: add_land_def)
  next
    case True
    let ?i = "get_row_idx numCols linIndex" and ?j = "get_col_idx numCols linIndex"
    from v True have v': "chk_loc numRows numCols linIndex g = Some True" by simp
    from chk_loc_True[OF v' c] have ij: "in_array numRows numCols ?i ?j" by simp
    then obtain g1 where
      s1: "tile_upd numRows numCols (\<lambda>t. t\<lparr>type := LHO_LANDSCAPE\<rparr>) ?i ?j g = Some g1"
      by (auto simp: tile_upd_def)
    from upd_neighbours_total[OF ij] obtain g2 where
      s2: "upd_neighbours numRows numCols (\<lambda>t. t\<lparr>numAdjLands := numAdjLands t + 1\<rparr>) ?i ?j
           (count_filled g1) = Some g2" by blast
    show ?thesis using v True s1 s2 by (auto simp: add_land_def Let_def)
  qed
qed



subsection \<open>\<open>add_river\<close>\<close>

lemma add_river_rejected:
  assumes "add_river numRows numCols linIndex g = Some (False, g')"
  shows "g' = g\<lparr>river := (river g)\<lparr>newRiver := newRiver (river g) \<and> \<not> on_border numRows numCols linIndex\<rparr>\<rparr>"
  using assms
  by (auto simp: add_river_def Option.bind_eq_Some_conv Let_def split: if_splits)

lemma add_river_accepted:
  assumes a: "add_river numRows numCols linIndex g = Some (True, g')"
    and w: "wf_grid numRows numCols g" and c: "0 < numCols"
  shows "newRiver (river g) \<longrightarrow> on_border numRows numCols linIndex"
    and "headLoc (river g) > -1 \<longrightarrow> adjacent_cells numCols (headLoc (river g)) linIndex"
    and "chk_loc numRows numCols linIndex g = Some True"
    and "wf_grid numRows numCols g'"
    and "headLoc (river g') = linIndex" and "oldHeadLoc (river g') = headLoc (river g)"
    and "newRiver (river g') = False"
    and "numFilledTiles g' = numFilledTiles g + 1"
    and "maxTiles g' = maxTiles g" and "val g' = val g"
    and "full g' \<longleftrightarrow> full g \<or> numFilledTiles g + 1 = maxTiles g"
    and "tile_at numRows numCols g' a b =
           (if (a, b) \<in> set (orthogonal (get_row_idx numCols linIndex) (get_col_idx numCols linIndex))
            then map_option (\<lambda>t. t\<lparr>numAdjRivers := numAdjRivers t + 1\<rparr>) (tile_at numRows numCols g a b)
            else if a = get_row_idx numCols linIndex \<and> b = get_col_idx numCols linIndex
            then map_option (\<lambda>t. t\<lparr>type := LHO_RIVER\<rparr>) (tile_at numRows numCols g a b)
            else tile_at numRows numCols g a b)"
proof -
  let ?i = "get_row_idx numCols linIndex" and ?j = "get_col_idx numCols linIndex"
  let ?ga = "if newRiver (river g) then g\<lparr>river := (river g)\<lparr>newRiver := False\<rparr>\<rparr> else g"
  let ?gb = "?ga\<lparr>river := (river ?ga)\<lparr>oldHeadLoc := headLoc (river ?ga), headLoc := linIndex\<rparr>\<rparr>"
  from a have b: "newRiver (river g) \<longrightarrow> on_border numRows numCols linIndex"
    by (auto simp: add_river_def Let_def split: if_splits)
  from a obtain gc where
    v: "chk_loc numRows numCols linIndex g = Some True" and
    h: "headLoc (river g) > -1 \<longrightarrow> adjacent_cells numCols (headLoc (river g)) linIndex" and
    s1: "tile_upd numRows numCols (\<lambda>t. t\<lparr>type := LHO_RIVER\<rparr>) ?i ?j ?gb = Some gc" and
    s2: "upd_neighbours numRows numCols (\<lambda>t. t\<lparr>numAdjRivers := numAdjRivers t + 1\<rparr>) ?i ?j
           (count_filled gc) = Some g'"
    by (auto simp: add_river_def Option.bind_eq_Some_conv Let_def split: if_splits)
  from chk_loc_True[OF v c] have ij: "in_array numRows numCols ?i ?j" by simp
  have wb: "wf_grid numRows numCols ?gb" using w by simp
  have w1: "wf_grid numRows numCols (count_filled gc)"
    using tile_upd_wf[OF s1 wb] by simp
  note f1 = tile_upd_fields[OF s1]
  note r = upd_neighbours_spec[OF s2 w1 ij]
  show "newRiver (river g) \<longrightarrow> on_border numRows numCols linIndex" by (rule b)
  show "headLoc (river g) > -1 \<longrightarrow> adjacent_cells numCols (headLoc (river g)) linIndex" by (rule h)
  show "chk_loc numRows numCols linIndex g = Some True" by (rule v)
  show "wf_grid numRows numCols g'" by (rule r(1))
  show "headLoc (river g') = linIndex" by (simp add: r f1)
  show "oldHeadLoc (river g') = headLoc (river g)" by (simp add: r f1)
  show "newRiver (river g') = False" by (simp add: r f1)
  show "numFilledTiles g' = numFilledTiles g + 1" by (simp add: r f1)
  show "maxTiles g' = maxTiles g" by (simp add: r f1)
  show "val g' = val g" by (simp add: r f1)
  show "full g' \<longleftrightarrow> full g \<or> numFilledTiles g + 1 = maxTiles g" by (simp add: r f1)
  have "tile_at numRows numCols ?gb a b = tile_at numRows numCols g a b" for a b
    by simp
  then show "tile_at numRows numCols g' a b =
           (if (a, b) \<in> set (orthogonal ?i ?j)
            then map_option (\<lambda>t. t\<lparr>numAdjRivers := numAdjRivers t + 1\<rparr>) (tile_at numRows numCols g a b)
            else if a = ?i \<and> b = ?j
            then map_option (\<lambda>t. t\<lparr>type := LHO_RIVER\<rparr>) (tile_at numRows numCols g a b)
            else tile_at numRows numCols g a b)"
    by (simp add: r(7) tile_at_upd[OF s1 wb])
qed

lemma add_river_accepts:
  assumes w: "wf_grid numRows numCols g" and c: "0 < numCols"
    and b: "newRiver (river g) \<longrightarrow> on_border numRows numCols linIndex"
    and h: "headLoc (river g) > -1 \<longrightarrow> adjacent_cells numCols (headLoc (river g)) linIndex"
    and v: "chk_loc numRows numCols linIndex g = Some True"
  shows "\<exists>g'. add_river numRows numCols linIndex g = Some (True, g')"
proof -
  let ?i = "get_row_idx numCols linIndex" and ?j = "get_col_idx numCols linIndex"
  let ?ga = "if newRiver (river g) then g\<lparr>river := (river g)\<lparr>newRiver := False\<rparr>\<rparr> else g"
  let ?gb = "?ga\<lparr>river := (river ?ga)\<lparr>oldHeadLoc := headLoc (river ?ga), headLoc := linIndex\<rparr>\<rparr>"
  from chk_loc_True[OF v c] have ij: "in_array numRows numCols ?i ?j" by simp
  then obtain gc where
    s1: "tile_upd numRows numCols (\<lambda>t. t\<lparr>type := LHO_RIVER\<rparr>) ?i ?j ?gb = Some gc"
    by (auto simp: tile_upd_def)
  from upd_neighbours_total[OF ij] obtain gd where
    s2: "upd_neighbours numRows numCols (\<lambda>t. t\<lparr>numAdjRivers := numAdjRivers t + 1\<rparr>) ?i ?j
           (count_filled gc) = Some gd" by blast
  have "add_river numRows numCols linIndex g = Some (True, gd)"
    using b h v s1 s2
    by (auto simp: add_river_def Let_def)
  then show ?thesis by blast
qed

lemma add_river_total:
  assumes w: "wf_grid numRows numCols g" and c: "0 < numCols"
  shows "\<exists>b g'. add_river numRows numCols linIndex g = Some (b, g')"
proof (cases "(newRiver (river g) \<longrightarrow> on_border numRows numCols linIndex) \<and>
    (headLoc (river g) > -1 \<longrightarrow> adjacent_cells numCols (headLoc (river g)) linIndex) \<and>
    chk_loc numRows numCols linIndex g = Some True")
  case True
  then show ?thesis using add_river_accepts[OF w c] by blast
next
  case False
  from chk_loc_total[OF c] obtain v where v: "chk_loc numRows numCols linIndex g = Some v"
    by blast
  with False show ?thesis
    by (auto simp: add_river_def Let_def)
qed

subsection \<open>\<open>remove_terrain\<close>\<close>

lemma map_option_id_fun: "map_option (\<lambda>t. t) x = x"
  by (cases x) simp_all

lemma remove_terrain_spec:
  assumes a: "remove_terrain numRows numCols linIndex g = Some g'"
    and w: "wf_grid numRows numCols g"
  obtains t where
    "tile_at numRows numCols g (get_row_idx numCols linIndex) (get_col_idx numCols linIndex) = Some t"
    "in_array numRows numCols (get_row_idx numCols linIndex) (get_col_idx numCols linIndex)"
    "wf_grid numRows numCols g'"
    "river g' = restore_head linIndex (river g)"
    "numFilledTiles g' = numFilledTiles g - (if type t = LHO_EMPTY then 0 else 1)"
    "maxTiles g' = maxTiles g" "val g' = val g" "full g' = full g"
    "\<And>a b. tile_at numRows numCols g' a b =
           (if (a, b) \<in> set (orthogonal (get_row_idx numCols linIndex) (get_col_idx numCols linIndex))
            then map_option (dec_counter (type t)) (tile_at numRows numCols g a b)
            else if a = get_row_idx numCols linIndex \<and> b = get_col_idx numCols linIndex
            then map_option (\<lambda>t. t\<lparr>type := LHO_EMPTY\<rparr>) (tile_at numRows numCols g a b)
            else tile_at numRows numCols g a b)"
proof -
  let ?i = "get_row_idx numCols linIndex" and ?j = "get_col_idx numCols linIndex"
  from a obtain t g1 where
    t: "tile_at numRows numCols g ?i ?j = Some t" and
    s1: "tile_upd numRows numCols (\<lambda>t. t\<lparr>type := LHO_EMPTY\<rparr>) ?i ?j g = Some g1"
    by (auto simp: remove_terrain_def Option.bind_eq_Some_conv Let_def)
  define g2 where "g2 = (if terrain_code (type t) > terrain_code LHO_EMPTY
               then g1\<lparr>numFilledTiles := numFilledTiles g1 - 1\<rparr> else g1)"
  define g3 where "g3 = (if headLoc (river g) = linIndex
               then (let r = (river g2)\<lparr>headLoc := oldHeadLoc (river g2)\<rparr>
                     in g2\<lparr>river := (if headLoc r = -1 then r\<lparr>newRiver := True\<rparr> else r)\<rparr>)
               else g2)"
  have "remove_terrain numRows numCols linIndex g =
     (if type t = LHO_RIVER
      then upd_neighbours numRows numCols (\<lambda>t. t\<lparr>numAdjRivers := numAdjRivers t - 1\<rparr>) ?i ?j g3
      else if type t = LHO_LANDSCAPE
      then upd_neighbours numRows numCols (\<lambda>t. t\<lparr>numAdjLands := numAdjLands t - 1\<rparr>) ?i ?j g3
      else Some g3)"
    unfolding remove_terrain_def g2_def g3_def using t s1 by (simp add: Let_def)
  with a have s2:
    "(if type t = LHO_RIVER
      then upd_neighbours numRows numCols (\<lambda>t. t\<lparr>numAdjRivers := numAdjRivers t - 1\<rparr>) ?i ?j g3
      else if type t = LHO_LANDSCAPE
      then upd_neighbours numRows numCols (\<lambda>t. t\<lparr>numAdjLands := numAdjLands t - 1\<rparr>) ?i ?j g3
      else Some g3) = Some g'"
    by simp
  from t have ij: "in_array numRows numCols ?i ?j"
    by (simp add: tile_at_def split: if_splits)
  note f1 = tile_upd_fields[OF s1]
  have w1: "wf_grid numRows numCols g1" by (rule tile_upd_wf[OF s1 w])
  have w3: "wf_grid numRows numCols g3"
    using w1 by (simp add: g3_def g2_def Let_def wf_grid_def)
  have t3: "tile_at numRows numCols g3 a b = tile_at numRows numCols g1 a b" for a b
    by (simp add: g3_def g2_def Let_def tile_at_def)
  have f3: "maxTiles g3 = maxTiles g" "val g3 = val g" "full g3 = full g"
    "numFilledTiles g3 = numFilledTiles g - (if type t = LHO_EMPTY then 0 else 1)"
    by (simp_all add: g3_def g2_def Let_def f1)
  have r3: "river g3 = restore_head linIndex (river g)"
    by (simp add: g3_def g2_def Let_def f1 restore_head_def)
  have fin: "wf_grid numRows numCols g' \<and> river g' = river g3 \<and>
    numFilledTiles g' = numFilledTiles g3 \<and> maxTiles g' = maxTiles g3 \<and>
    val g' = val g3 \<and> full g' = full g3 \<and>
    (\<forall>a b. tile_at numRows numCols g' a b =
       (if (a, b) \<in> set (orthogonal ?i ?j)
        then map_option (dec_counter (type t)) (tile_at numRows numCols g3 a b)
        else tile_at numRows numCols g3 a b))"
  proof (cases "type t")
    case LHO_EMPTY
    then have "g' = g3" using s2 by simp
    moreover have "dec_counter LHO_EMPTY = (\<lambda>t. t)"
      by (rule ext) (simp add: dec_counter_def)
    ultimately show ?thesis using w3 LHO_EMPTY by (simp add: map_option_id_fun)
  next
    case LHO_RIVER
    then have u: "upd_neighbours numRows numCols (\<lambda>t. t\<lparr>numAdjRivers := numAdjRivers t - 1\<rparr>) ?i ?j g3 = Some g'"
      using s2 by simp
    have "dec_counter LHO_RIVER = (\<lambda>t. t\<lparr>numAdjRivers := numAdjRivers t - 1\<rparr>)"
      by (rule ext) (simp add: dec_counter_def)
    then show ?thesis using upd_neighbours_spec[OF u w3 ij] LHO_RIVER by simp
  next
    case LHO_LANDSCAPE
    then have u: "upd_neighbours numRows numCols (\<lambda>t. t\<lparr>numAdjLands := numAdjLands t - 1\<rparr>) ?i ?j g3 = Some g'"
      using s2 by simp
    have "dec_counter LHO_LANDSCAPE = (\<lambda>t. t\<lparr>numAdjLands := numAdjLands t - 1\<rparr>)"
      by (rule ext) (simp add: dec_counter_def)
    then show ?thesis using upd_neighbours_spec[OF u w3 ij] LHO_LANDSCAPE by simp
  qed
  show ?thesis
  proof (rule that[OF t ij])
    show "wf_grid numRows numCols g'" using fin by simp
    show "river g' = restore_head linIndex (river g)" using fin r3 by simp
    show "numFilledTiles g' = numFilledTiles g - (if type t = LHO_EMPTY then 0 else 1)"
      using fin f3 by simp
    show "maxTiles g' = maxTiles g" "val g' = val g" "full g' = full g" using fin f3 by simp_all
    show "tile_at numRows numCols g' a b =
           (if (a, b) \<in> set (orthogonal ?i ?j)
            then map_option (dec_counter (type t)) (tile_at numRows numCols g a b)
            else if a = ?i \<and> b = ?j
            then map_option (\<lambda>t. t\<lparr>type := LHO_EMPTY\<rparr>) (tile_at numRows numCols g a b)
            else tile_at numRows numCols g a b)" for a b
      using fin by (simp add: t3 tile_at_upd[OF s1 w])
  qed
qed

lemma remove_terrain_total:
  assumes "in_array numRows numCols (get_row_idx numCols linIndex) (get_col_idx numCols linIndex)"
  shows "\<exists>g'. remove_terrain numRows numCols linIndex g = Some g'"
proof -
  let ?i = "get_row_idx numCols linIndex" and ?j = "get_col_idx numCols linIndex"
  obtain t where t: "tile_at numRows numCols g ?i ?j = Some t"
    using assms by (simp add: tile_at_def)
  obtain g1 where s1: "tile_upd numRows numCols (\<lambda>t. t\<lparr>type := LHO_EMPTY\<rparr>) ?i ?j g = Some g1"
    using assms by (simp add: tile_upd_def)
  show ?thesis
    using t s1 upd_neighbours_total[OF assms]
    by (cases "type t") (simp_all add: remove_terrain_def Let_def)
qed

lemma remove_terrain_outside:
  assumes "\<not> in_array numRows numCols (get_row_idx numCols linIndex) (get_col_idx numCols linIndex)"
  shows "remove_terrain numRows numCols linIndex g = None"
  using assms by (simp add: remove_terrain_def tile_at_def)

section \<open>Claims\<close>

text \<open>
  C10. With no river started (\<open>newRiver\<close> true), \<open>add_river\<close> at a cell that is not on the
  border (row neither 0 nor \<open>numRows - 1\<close>, column neither 0 nor \<open>numCols - 1\<close>) returns
  false and leaves the whole grid state as it was.
\<close>

theorem add_river_interior_start_rejected:
  assumes "newRiver (river g)" and "\<not> on_border numRows numCols linIndex"
  shows "add_river numRows numCols linIndex g = Some (False, g)"
  using assms by (simp add: add_river_def)

theorem add_river_interior_start_rejected_witness:
  "newRiver (river (allocate_grid 3 3)) \<and> \<not> on_border 3 3 4 \<and>
   add_river 3 3 4 (allocate_grid 3 3) = Some (False, allocate_grid 3 3)"
proof -
  have n: "newRiver (river (allocate_grid 3 3))" by (simp add: allocate_grid_def)
  have b: "\<not> on_border 3 3 4" by code_simp
  from add_river_interior_start_rejected[OF n b] n b show ?thesis by simp
qed

text \<open>
  C7. With no river started and no head (\<open>headLoc = -1\<close>), \<open>add_river\<close> at an occupied border
  cell returns false but clears \<open>newRiver\<close>, and the head stays \<open>-1\<close>; after that,
  \<open>add_river\<close> is accepted at every empty cell, border or not.
\<close>

theorem add_river_occupied_border_start:
  assumes w: "wf_grid numRows numCols g" and c: "0 < numCols"
    and n: "newRiver (river g)" and h: "headLoc (river g) = -1"
    and r: "0 \<le> linIndex" "linIndex < numRows * numCols"
    and b: "on_border numRows numCols linIndex"
    and o: "kind_at numRows numCols g (get_row_idx numCols linIndex) (get_col_idx numCols linIndex) = Some k"
           "k \<noteq> LHO_EMPTY"
  shows "add_river numRows numCols linIndex g = Some (False, g\<lparr>river := (river g)\<lparr>newRiver := False\<rparr>\<rparr>) \<and>
         headLoc (river (g\<lparr>river := (river g)\<lparr>newRiver := False\<rparr>\<rparr>)) = -1 \<and>
         (\<forall>m. 0 \<le> m \<and> m < numRows * numCols \<and>
              kind_at numRows numCols g (get_row_idx numCols m) (get_col_idx numCols m) = Some LHO_EMPTY \<longrightarrow>
              (\<exists>g'. add_river numRows numCols m (g\<lparr>river := (river g)\<lparr>newRiver := False\<rparr>\<rparr>) = Some (True, g')))"
proof (intro conjI allI impI)
  let ?ga = "g\<lparr>river := (river g)\<lparr>newRiver := False\<rparr>\<rparr>"
  have "type (grid g ! nat (get_row_idx numCols linIndex) ! nat (get_col_idx numCols linIndex)) \<noteq> LHO_EMPTY"
    using o idx_in_array[OF r c] by (auto simp: kind_at_def tile_at_def)
  then have v: "chk_loc numRows numCols linIndex g = Some False"
    using chk_loc_inside[OF r c, of g] by simp
  show "add_river numRows numCols linIndex g = Some (False, ?ga)"
    using n h b v by (simp add: add_river_def)
  show "headLoc (river ?ga) = -1" using h by simp
  fix m
  assume m: "0 \<le> m \<and> m < numRows * numCols \<and>
    kind_at numRows numCols g (get_row_idx numCols m) (get_col_idx numCols m) = Some LHO_EMPTY"
  then have r': "0 \<le> m" "m < numRows * numCols" by simp_all
  have "type (grid g ! nat (get_row_idx numCols m) ! nat (get_col_idx numCols m)) = LHO_EMPTY"
    using m idx_in_array[OF r' c] by (auto simp: kind_at_def tile_at_def)
  then have v': "chk_loc numRows numCols m ?ga = Some True"
    using chk_loc_inside[OF r' c, of g] by simp
  have w': "wf_grid numRows numCols ?ga" using w by simp
  show "\<exists>g'. add_river numRows numCols m ?ga = Some (True, g')"
    by (rule add_river_accepts[OF w' c _ _ v']) (simp_all add: h)
qed

lemma land_corner_built: "add_land 3 3 0 (allocate_grid 3 3) = Some (True, land_corner)"
  by code_simp

theorem add_river_occupied_border_start_witness:
  "add_river 3 3 0 land_corner = Some (False, land_corner\<lparr>river := (river land_corner)\<lparr>newRiver := False\<rparr>\<rparr>) \<and>
   \<not> on_border 3 3 4 \<and>
   (\<exists>g'. add_river 3 3 4 (land_corner\<lparr>river := (river land_corner)\<lparr>newRiver := False\<rparr>\<rparr>) = Some (True, g'))"
proof -
  have w: "wf_grid 3 3 land_corner" by code_simp
  have n: "newRiver (river land_corner)" by code_simp
  have h: "headLoc (river land_corner) = -1" by code_simp
  have b: "on_border 3 3 0" by code_simp
  have o: "kind_at 3 3 land_corner (get_row_idx 3 0) (get_col_idx 3 0) = Some LHO_LANDSCAPE" by code_simp
  have e: "kind_at 3 3 land_corner (get_row_idx 3 4) (get_col_idx 3 4) = Some LHO_EMPTY" by code_simp
  have nb: "\<not> on_border 3 3 4" by code_simp
  have t: "add_river 3 3 0 land_corner =
      Some (False, land_corner\<lparr>river := (river land_corner)\<lparr>newRiver := False\<rparr>\<rparr>) \<and>
    headLoc (river (land_corner\<lparr>river := (river land_corner)\<lparr>newRiver := False\<rparr>\<rparr>)) = -1 \<and>
    (\<forall>m. 0 \<le> m \<and> m < 3 * 3 \<and>
         kind_at 3 3 land_corner (get_row_idx 3 m) (get_col_idx 3 m) = Some LHO_EMPTY \<longrightarrow>
         (\<exists>g'. add_river 3 3 m (land_corner\<lparr>river := (river land_corner)\<lparr>newRiver := False\<rparr>\<rparr>) =
            Some (True, g')))"
    by (rule add_river_occupied_border_start[OF w _ n h _ _ b o]) simp_all
  then have "\<exists>g'. add_river 3 3 4 (land_corner\<lparr>river := (river land_corner)\<lparr>newRiver := False\<rparr>\<rparr>) =
            Some (True, g')"
    using e by (elim conjE allE[where x = 4]) simp
  with t nb show ?thesis by simp
qed

text \<open>
  C8 (as amended). For an index outside \<open>[0, numRows * numCols)\<close>: \<open>chk_loc\<close> returns false;
  \<open>add_land\<close> returns false and leaves the grid as it was; \<open>add_river\<close> returns false and
  leaves the tiles, the counters, the fill count and both river heads as they were;
  \<open>remove_terrain\<close> makes no range check and accesses the tile array outside its bounds.
\<close>

theorem out_of_range_index:
  assumes c: "0 < numCols" and o: "linIndex < 0 \<or> linIndex > numRows * numCols - 1"
  shows "chk_loc numRows numCols linIndex g = Some False \<and>
         add_land numRows numCols linIndex g = Some (False, g) \<and>
         (\<exists>g'. add_river numRows numCols linIndex g = Some (False, g') \<and>
               grid g' = grid g \<and> numFilledTiles g' = numFilledTiles g \<and>
               maxTiles g' = maxTiles g \<and> full g' = full g \<and> val g' = val g \<and>
               headLoc (river g') = headLoc (river g) \<and>
               oldHeadLoc (river g') = oldHeadLoc (river g)) \<and>
         remove_terrain numRows numCols linIndex g = None"
proof (intro conjI)
  show v: "chk_loc numRows numCols linIndex g = Some False"
    using o by (rule chk_loc_outside)
  show "add_land numRows numCols linIndex g = Some (False, g)"
    using v by (simp add: add_land_def)
  have "add_river numRows numCols linIndex g =
          Some (False, g\<lparr>river := (river g)\<lparr>newRiver := newRiver (river g) \<and>
                                                   \<not> on_border numRows numCols linIndex\<rparr>\<rparr>)"
    using v by (simp add: add_river_def Let_def)
  then show "\<exists>g'. add_river numRows numCols linIndex g = Some (False, g') \<and>
               grid g' = grid g \<and> numFilledTiles g' = numFilledTiles g \<and>
               maxTiles g' = maxTiles g \<and> full g' = full g \<and> val g' = val g \<and>
               headLoc (river g') = headLoc (river g) \<and>
               oldHeadLoc (river g') = oldHeadLoc (river g)"
    by simp
  show "remove_terrain numRows numCols linIndex g = None"
    by (rule remove_terrain_outside[OF idx_not_in_array[OF o c]])
qed

theorem out_of_range_index_witness:
  "chk_loc 2 2 4 (allocate_grid 2 2) = Some False \<and>
   add_land 2 2 4 (allocate_grid 2 2) = Some (False, allocate_grid 2 2) \<and>
   (\<exists>g'. add_river 2 2 4 (allocate_grid 2 2) = Some (False, g') \<and>
         grid g' = grid (allocate_grid 2 2) \<and>
         numFilledTiles g' = numFilledTiles (allocate_grid 2 2) \<and>
         maxTiles g' = maxTiles (allocate_grid 2 2) \<and> full g' = full (allocate_grid 2 2) \<and>
         val g' = val (allocate_grid 2 2) \<and>
         headLoc (river g') = headLoc (river (allocate_grid 2 2)) \<and>
         oldHeadLoc (river g') = oldHeadLoc (river (allocate_grid 2 2))) \<and>
   remove_terrain 2 2 4 (allocate_grid 2 2) = None"
  using out_of_range_index[of 2 4 2 "allocate_grid 2 2"] by simp

theorem out_of_range_index_counterexample:
  "add_river 2 2 (-1) (allocate_grid 2 2) \<noteq> Some (False, allocate_grid 2 2) \<and>
   newRiver (river (allocate_grid 2 2)) \<and>
   map_option (newRiver \<circ> river \<circ> snd) (add_river 2 2 (-1) (allocate_grid 2 2)) = Some False \<and>
   remove_terrain 2 2 (-1) (allocate_grid 2 2) = None \<and>
   remove_terrain 2 2 4 (allocate_grid 2 2) = None"
  by code_simp

lemma map_option_comp_id:
  assumes "\<And>t. f (h t) = t"
  shows "map_option f (map_option h x) = x"
  using assms by (cases x) simp_all

lemma river_pair_built: "run_calls 1 3 [Place 0, Place 1] (allocate_grid 1 3) = Some river_pair"
  by code_simp

text \<open>
  C5 (as amended). When \<open>add_river\<close> at \<open>linIndex\<close> is accepted, \<open>remove_terrain\<close> at
  \<open>linIndex\<close> succeeds on the result and restores \<open>headLoc\<close>; \<open>newRiver\<close> becomes true exactly
  when the restored head is \<open>-1\<close>; \<open>oldHeadLoc\<close> is not restored but left equal to the
  restored head.
\<close>

theorem add_river_remove_terrain_cursor:
  assumes w: "wf_grid numRows numCols g" and c: "0 < numCols"
    and a: "add_river numRows numCols linIndex g = Some (True, g1)"
  shows "\<exists>g2. remove_terrain numRows numCols linIndex g1 = Some g2 \<and>
           headLoc (river g2) = headLoc (river g) \<and>
           newRiver (river g2) = (headLoc (river g) = -1) \<and>
           oldHeadLoc (river g2) = headLoc (river g)"
proof -
  note s = add_river_accepted[OF a w c]
  from chk_loc_True[OF s(3) c]
  have ij: "in_array numRows numCols (get_row_idx numCols linIndex) (get_col_idx numCols linIndex)"
    by simp
  from remove_terrain_total[OF ij] obtain g2 where
    r: "remove_terrain numRows numCols linIndex g1 = Some g2" by blast
  from remove_terrain_spec[OF r s(4)] have "river g2 = restore_head linIndex (river g1)"
    by blast
  then show ?thesis using r s(5,6,7) by (simp add: restore_head_def)
qed

theorem add_river_remove_terrain_cursor_witness:
  "\<exists>g1 g2. add_river 1 3 2 river_pair = Some (True, g1) \<and>
     remove_terrain 1 3 2 g1 = Some g2 \<and> headLoc (river g2) = 1 \<and>
     newRiver (river g2) = False \<and> oldHeadLoc (river g2) = 1"
proof -
  have w: "wf_grid 1 3 river_pair" by code_simp
  have "map_option fst (add_river 1 3 2 river_pair) = Some True" by code_simp
  then obtain g1 where a: "add_river 1 3 2 river_pair = Some (True, g1)"
    by (cases "add_river 1 3 2 river_pair") auto
  have h: "headLoc (river river_pair) = 1" by code_simp
  from add_river_remove_terrain_cursor[OF w _ a] h a show ?thesis by auto
qed

theorem add_river_remove_terrain_cursor_counterexample:
  "oldHeadLoc (river river_pair) = 0 \<and>
   map_option fst (add_river 1 3 2 river_pair) = Some True \<and>
   map_option (oldHeadLoc \<circ> river) (run_calls 1 3 [Place 2, Remove 2] river_pair) = Some 1"
  by code_simp

text \<open>
  C6 (as amended). When \<open>add_land\<close> at \<open>linIndex\<close> is accepted, \<open>remove_terrain\<close> at
  \<open>linIndex\<close> succeeds on the result and restores every tile (kind and both counters), the
  fill count, \<open>maxTiles\<close> and \<open>val\<close>. The flag \<open>full\<close> is not cleared: it is true afterwards
  when it was true before or the placement filled the last cell. The river cursor is the one
  \<open>remove_terrain\<close> leaves, which is the old one unless the head pointed at \<open>linIndex\<close>. So
  the grid is exactly the one before whenever the placement did not fill the grid and the head
  was elsewhere.
\<close>

theorem add_land_remove_terrain_roundtrip:
  assumes w: "wf_grid numRows numCols g" and c: "0 < numCols"
    and a: "add_land numRows numCols linIndex g = Some (True, g1)"
  shows "\<exists>g2. remove_terrain numRows numCols linIndex g1 = Some g2 \<and>
           grid g2 = grid g \<and> numFilledTiles g2 = numFilledTiles g \<and>
           maxTiles g2 = maxTiles g \<and> val g2 = val g \<and>
           full g2 = (full g \<or> numFilledTiles g + 1 = maxTiles g) \<and>
           river g2 = restore_head linIndex (river g) \<and>
           (headLoc (river g) \<noteq> linIndex \<and> (full g \<or> numFilledTiles g + 1 \<noteq> maxTiles g) \<longrightarrow>
              g2 = g)"
proof -
  let ?i = "get_row_idx numCols linIndex" and ?j = "get_col_idx numCols linIndex"
  note s = add_land_accepted[OF a w c]
  from chk_loc_True[OF s(1) c] obtain t0 where
    ij: "in_array numRows numCols ?i ?j" and
    t0: "tile_at numRows numCols g ?i ?j = Some t0" "type t0 = LHO_EMPTY"
    by blast
  from remove_terrain_total[OF ij] obtain g2 where
    r: "remove_terrain numRows numCols linIndex g1 = Some g2" by blast
  have "grid g2 = grid g \<and> numFilledTiles g2 = numFilledTiles g \<and>
        maxTiles g2 = maxTiles g \<and> val g2 = val g \<and>
        full g2 = (full g \<or> numFilledTiles g + 1 = maxTiles g) \<and>
        river g2 = restore_head linIndex (river g)"
  proof (rule remove_terrain_spec[OF r s(2)])
  fix t
  assume t: "tile_at numRows numCols g1 ?i ?j = Some t" and
    w2: "wf_grid numRows numCols g2" and
    rv: "river g2 = restore_head linIndex (river g1)" and
    n2: "numFilledTiles g2 = numFilledTiles g1 - (if type t = LHO_EMPTY then 0 else 1)" and
    m2: "maxTiles g2 = maxTiles g1" "val g2 = val g1" "full g2 = full g1" and
    x2: "\<And>a b. tile_at numRows numCols g2 a b =
           (if (a, b) \<in> set (orthogonal ?i ?j)
            then map_option (dec_counter (type t)) (tile_at numRows numCols g1 a b)
            else if a = ?i \<and> b = ?j
            then map_option (\<lambda>t. t\<lparr>type := LHO_EMPTY\<rparr>) (tile_at numRows numCols g1 a b)
            else tile_at numRows numCols g1 a b)"
  from t t0 have tt: "type t = LHO_LANDSCAPE" by (auto simp: s(8))
  have d: "map_option (dec_counter LHO_LANDSCAPE)
             (map_option (\<lambda>u. u\<lparr>numAdjLands := numAdjLands u + 1\<rparr>) x) = x" for x
    by (rule map_option_comp_id) (simp add: dec_counter_def)
  have "tile_at numRows numCols g2 a b = tile_at numRows numCols g a b" for a b
  proof -
    consider (nb) "(a, b) \<in> set (orthogonal ?i ?j)" | (self) "a = ?i" "b = ?j"
      | (other) "(a, b) \<notin> set (orthogonal ?i ?j)" "\<not> (a = ?i \<and> b = ?j)"
      by blast
    then show ?thesis
    proof cases
      case nb
      have "tile_at numRows numCols g2 a b =
              map_option (dec_counter (type t)) (tile_at numRows numCols g1 a b)"
        by (simp only: x2 nb if_True)
      also have "tile_at numRows numCols g1 a b =
              map_option (\<lambda>t. t\<lparr>numAdjLands := numAdjLands t + 1\<rparr>) (tile_at numRows numCols g a b)"
        by (simp only: s(8) nb if_True)
      finally show ?thesis by (simp only: tt d)
    next
      case self
      have e: "t0\<lparr>type := LHO_EMPTY\<rparr> = t0" using t0(2) by simp
      have "tile_at numRows numCols g2 ?i ?j =
              map_option (\<lambda>t. t\<lparr>type := LHO_EMPTY\<rparr>) (tile_at numRows numCols g1 ?i ?j)"
        by (simp add: x2)
      also have "tile_at numRows numCols g1 ?i ?j =
              map_option (\<lambda>t. t\<lparr>type := LHO_LANDSCAPE\<rparr>) (tile_at numRows numCols g ?i ?j)"
        by (simp add: s(8))
      finally show ?thesis using self t0(1) e by simp
    next
      case other
      have "tile_at numRows numCols g2 a b = tile_at numRows numCols g1 a b"
        by (simp only: x2 other if_False)
      also have "\<dots> = tile_at numRows numCols g a b"
        by (simp only: s(8) other if_False)
      finally show ?thesis .
    qed
  qed
  then have "grid g2 = grid g" by (intro grid_ext[OF w2 w]) simp
  moreover have "numFilledTiles g2 = numFilledTiles g" using n2 tt s(4) by simp
  ultimately show ?thesis using rv m2 s(3,5,6,7) by simp
  qed
  then have f: "grid g2 = grid g" "numFilledTiles g2 = numFilledTiles g"
    "maxTiles g2 = maxTiles g" "val g2 = val g"
    "full g2 = (full g \<or> numFilledTiles g + 1 = maxTiles g)"
    "river g2 = restore_head linIndex (river g)"
    by simp_all
  have "g2 = g"
    if "headLoc (river g) \<noteq> linIndex \<and> (full g \<or> numFilledTiles g + 1 \<noteq> maxTiles g)"
  proof (rule Grid.equality)
    show "river g2 = river g" using that f(6) by (simp add: restore_head_def)
    show "full g2 = full g" using that f(5) by auto
  qed (simp_all add: f)
  then show ?thesis using r f by blast
qed

theorem add_land_remove_terrain_roundtrip_witness:
  "\<exists>g2. remove_terrain 3 3 0 land_corner = Some g2 \<and> g2 = allocate_grid 3 3"
proof -
  have w: "wf_grid 3 3 (allocate_grid 3 3)" by code_simp
  have h: "headLoc (river (allocate_grid 3 3)) \<noteq> 0 \<and>
           (full (allocate_grid 3 3) \<or>
            numFilledTiles (allocate_grid 3 3) + 1 \<noteq> maxTiles (allocate_grid 3 3))"
    by code_simp
  from add_land_remove_terrain_roundtrip[OF w _ land_corner_built] h show ?thesis by auto
qed

theorem add_land_remove_terrain_roundtrip_counterexample:
  "map_option fst (add_land 1 1 0 (allocate_grid 1 1)) = Some True \<and>
   \<not> full (allocate_grid 1 1) \<and>
   map_option full
     (Option.bind (add_land 1 1 0 (allocate_grid 1 1)) (remove_terrain 1 1 0 \<circ> snd)) = Some True \<and>
   Option.bind (add_land 1 1 0 (allocate_grid 1 1)) (remove_terrain 1 1 0 \<circ> snd)
     \<noteq> Some (allocate_grid 1 1)"
  by code_simp

subsection \<open>The fill count\<close>

lemma sum_list_map_update:
  "i < length xs \<Longrightarrow> sum_list (map h (xs[i := y])) = sum_list (map h xs) - h (xs ! i) + (h y :: int)"
proof (induction xs arbitrary: i)
  case Nil
  then show ?case by simp
next
  case (Cons x xs)
  then show ?case by (cases i) simp_all
qed

lemma count_filter_update_nat:
  "j < length r \<Longrightarrow>
     length (filter P (r[j := y])) + (if P (r ! j) then 1 else 0) =
       length (filter P r) + (if P y then 1 else 0)"
proof (induction r arbitrary: j)
  case Nil
  then show ?case by simp
next
  case (Cons x r)
  show ?case
  proof (cases j)
    case 0
    then show ?thesis by simp
  next
    case (Suc n)
    then have "n < length r" using Cons.prems by simp
    from Cons.IH[OF this] Suc show ?thesis by simp
  qed
qed

lemma count_filter_update:
  assumes "j < length r"
  shows "int (length (filter P (r[j := y]))) =
       int (length (filter P r)) - (if P (r ! j) then 1 else 0) + (if P y then 1 else 0)"
proof -
  have "int (length (filter P (r[j := y])) + (if P (r ! j) then 1 else 0)) =
        int (length (filter P r) + (if P y then 1 else 0))"
    by (simp only: count_filter_update_nat[OF assms])
  then show ?thesis by (simp split: if_splits)
qed

lemma num_nonempty_fields [simp]:
  "num_nonempty (g\<lparr>river := r\<rparr>) = num_nonempty g"
  "num_nonempty (g\<lparr>numFilledTiles := n\<rparr>) = num_nonempty g"
  "num_nonempty (count_filled g) = num_nonempty g"
  by (simp_all add: num_nonempty_def)

lemma num_nonempty_tile_upd:
  assumes u: "tile_upd numRows numCols f i j g = Some g'" and w: "wf_grid numRows numCols g"
    and t: "tile_at numRows numCols g i j = Some t"
  shows "num_nonempty g' = num_nonempty g - filled t + filled (f t)"
proof -
  from u have ij: "in_array numRows numCols i j"
    and g': "grid g' = (grid g)[nat i := (grid g ! nat i)[nat j := f (grid g ! nat i ! nat j)]]"
    by (auto simp: tile_upd_def split: if_splits)
  from wf_grid_nth[OF w ij] have l: "nat i < length (grid g)" "nat j < length (grid g ! nat i)"
    by simp_all
  from t ij have tt: "grid g ! nat i ! nat j = t" by (simp add: tile_at_def)
  show ?thesis
    unfolding num_nonempty_def g'
    by (simp add: sum_list_map_update[OF l(1)] count_filter_update[OF l(2)] tt filled_def)
qed

lemma num_nonempty_guarded:
  assumes "(if c then tile_upd numRows numCols f x y g else Some g) = Some g'"
    and "wf_grid numRows numCols g" and "\<And>t. type (f t) = type t"
  shows "num_nonempty g' = num_nonempty g"
proof (cases c)
  case True
  then have u: "tile_upd numRows numCols f x y g = Some g'" using assms(1) by simp
  then have "in_array numRows numCols x y" by (auto simp: tile_upd_def split: if_splits)
  then obtain t where t: "tile_at numRows numCols g x y = Some t" by (simp add: tile_at_def)
  show ?thesis using num_nonempty_tile_upd[OF u assms(2) t] assms(3) by (simp add: filled_def)
next
  case False
  then show ?thesis using assms(1) by simp
qed

lemma num_nonempty_upd_neighbours:
  assumes u: "upd_neighbours numRows numCols f i j g = Some g'"
    and w: "wf_grid numRows numCols g" and k: "\<And>t. type (f t) = type t"
  shows "num_nonempty g' = num_nonempty g"
proof -
  from u obtain g1 g2 g3 where
    s1: "(if i > 0 then tile_upd numRows numCols f (i - 1) j g else Some g) = Some g1" and
    s2: "(if i < numRows - 1 then tile_upd numRows numCols f (i + 1) j g1 else Some g1) = Some g2" and
    s3: "(if j > 0 then tile_upd numRows numCols f i (j - 1) g2 else Some g2) = Some g3" and
    s4: "(if j < numCols - 1 then tile_upd numRows numCols f i (j + 1) g3 else Some g3) = Some g'"
    unfolding upd_neighbours_def by (auto simp: Option.bind_eq_Some_conv)
  have w1: "wf_grid numRows numCols g1" using s1 w tile_upd_wf by (cases "i > 0") auto
  have w2: "wf_grid numRows numCols g2" using s2 w1 tile_upd_wf by (cases "i < numRows - 1") auto
  have w3: "wf_grid numRows numCols g3" using s3 w2 tile_upd_wf by (cases "j > 0") auto
  show ?thesis
    using num_nonempty_guarded[OF s1 w k] num_nonempty_guarded[OF s2 w1 k]
      num_nonempty_guarded[OF s3 w2 k] num_nonempty_guarded[OF s4 w3 k]
    by simp
qed

lemma sum_list_bounded:
  "(\<And>x. x \<in> set xs \<Longrightarrow> h x \<le> (c::int)) \<Longrightarrow> sum_list (map h xs) \<le> int (length xs) * c"
proof (induction xs)
  case Nil
  then show ?case by simp
next
  case (Cons a xs)
  have "h a \<le> c" by (rule Cons.prems) simp
  moreover have "sum_list (map h xs) \<le> int (length xs) * c"
    by (rule Cons.IH) (simp add: Cons.prems)
  ultimately show ?case by (simp add: algebra_simps)
qed

lemma num_nonempty_le:
  assumes w: "wf_grid numRows numCols g"
  shows "num_nonempty g \<le> int (nat numRows) * int (nat numCols)"
proof -
  have "int (length (filter (\<lambda>t. type t \<noteq> LHO_EMPTY) row)) \<le> int (nat numCols)"
    if "row \<in> set (grid g)" for row
  proof -
    have "length row = nat numCols" using w that by (simp add: wf_grid_def list_all_iff)
    then have "length (filter (\<lambda>t. type t \<noteq> LHO_EMPTY) row) \<le> nat numCols"
      using length_filter_le[of "\<lambda>t. type t \<noteq> LHO_EMPTY" row] by simp
    then show ?thesis by (simp only: of_nat_le_iff)
  qed
  from sum_list_bounded[of "grid g" _ "int (nat numCols)", OF this]
  have "num_nonempty g \<le> int (length (grid g)) * int (nat numCols)"
    by (simp only: num_nonempty_def)
  then show ?thesis using w by (simp only: wf_grid_def)
qed

lemma empty_tile_not_full:
  assumes w: "wf_grid numRows numCols g"
    and t: "tile_at numRows numCols g i j = Some t" "type t = LHO_EMPTY"
  shows "num_nonempty g < numRows * numCols"
proof -
  from t have ij: "in_array numRows numCols i j" by (simp add: tile_at_def split: if_splits)
  then obtain g' where u: "tile_upd numRows numCols (\<lambda>t. t\<lparr>type := LHO_RIVER\<rparr>) i j g = Some g'"
    by (simp add: tile_upd_def)
  from num_nonempty_tile_upd[OF u w t(1)] t(2)
  have "num_nonempty g' = num_nonempty g + 1" by (simp add: filled_def)
  moreover have "num_nonempty g' \<le> int (nat numRows) * int (nat numCols)"
    by (rule num_nonempty_le[OF tile_upd_wf[OF u w]])
  moreover have "int (nat numRows) = numRows" "int (nat numCols) = numCols"
    using ij by (auto simp: in_array_def)
  ultimately show ?thesis by simp
qed


lemma add_land_nonempty:
  assumes a: "add_land numRows numCols linIndex g = Some (True, g')"
    and w: "wf_grid numRows numCols g" and c: "0 < numCols"
  shows "num_nonempty g' = num_nonempty g + 1"
proof -
  let ?i = "get_row_idx numCols linIndex" and ?j = "get_col_idx numCols linIndex"
  from a obtain g1 where
    v: "chk_loc numRows numCols linIndex g = Some True" and
    s1: "tile_upd numRows numCols (\<lambda>t. t\<lparr>type := LHO_LANDSCAPE\<rparr>) ?i ?j g = Some g1" and
    s2: "upd_neighbours numRows numCols (\<lambda>t. t\<lparr>numAdjLands := numAdjLands t + 1\<rparr>) ?i ?j
           (count_filled g1) = Some g'"
    by (auto simp: add_land_def Option.bind_eq_Some_conv Let_def split: if_splits)
  from chk_loc_True[OF v c] obtain t where
    t: "tile_at numRows numCols g ?i ?j = Some t" "type t = LHO_EMPTY" by blast
  have w1: "wf_grid numRows numCols (count_filled g1)" using tile_upd_wf[OF s1 w] by simp
  have "num_nonempty g' = num_nonempty (count_filled g1)"
    by (rule num_nonempty_upd_neighbours[OF s2 w1]) simp
  also have "\<dots> = num_nonempty g + 1"
    using num_nonempty_tile_upd[OF s1 w t(1)] t(2) by (simp add: filled_def)
  finally show ?thesis .
qed

lemma add_river_nonempty:
  assumes a: "add_river numRows numCols linIndex g = Some (True, g')"
    and w: "wf_grid numRows numCols g" and c: "0 < numCols"
  shows "num_nonempty g' = num_nonempty g + 1"
proof -
  let ?i = "get_row_idx numCols linIndex" and ?j = "get_col_idx numCols linIndex"
  let ?ga = "if newRiver (river g) then g\<lparr>river := (river g)\<lparr>newRiver := False\<rparr>\<rparr> else g"
  let ?gb = "?ga\<lparr>river := (river ?ga)\<lparr>oldHeadLoc := headLoc (river ?ga), headLoc := linIndex\<rparr>\<rparr>"
  from a obtain gc where
    v: "chk_loc numRows numCols linIndex g = Some True" and
    s1: "tile_upd numRows numCols (\<lambda>t. t\<lparr>type := LHO_RIVER\<rparr>) ?i ?j ?gb = Some gc" and
    s2: "upd_neighbours numRows numCols (\<lambda>t. t\<lparr>numAdjRivers := numAdjRivers t + 1\<rparr>) ?i ?j
           (count_filled gc) = Some g'"
    by (auto simp: add_river_def Option.bind_eq_Some_conv Let_def split: if_splits)
  from chk_loc_True[OF v c] obtain t where
    t: "tile_at numRows numCols g ?i ?j = Some t" "type t = LHO_EMPTY" by blast
  have wb: "wf_grid numRows numCols ?gb" using w by simp
  have tb: "tile_at numRows numCols ?gb ?i ?j = Some t" using t(1) by simp
  have w1: "wf_grid numRows numCols (count_filled gc)" using tile_upd_wf[OF s1 wb] by simp
  have "num_nonempty g' = num_nonempty (count_filled gc)"
    by (rule num_nonempty_upd_neighbours[OF s2 w1]) simp
  also have "\<dots> = num_nonempty ?gb + 1"
    using num_nonempty_tile_upd[OF s1 wb tb] t(2) by (simp add: filled_def)
  also have "num_nonempty ?gb = num_nonempty g" by simp
  finally show ?thesis .
qed

lemma remove_terrain_nonempty:
  assumes a: "remove_terrain numRows numCols linIndex g = Some g'"
    and w: "wf_grid numRows numCols g"
    and t: "tile_at numRows numCols g (get_row_idx numCols linIndex) (get_col_idx numCols linIndex) = Some t"
  shows "num_nonempty g' = num_nonempty g - filled t"
proof -
  let ?i = "get_row_idx numCols linIndex" and ?j = "get_col_idx numCols linIndex"
  from a t obtain g1 where
    s1: "tile_upd numRows numCols (\<lambda>t. t\<lparr>type := LHO_EMPTY\<rparr>) ?i ?j g = Some g1"
    by (auto simp: remove_terrain_def Option.bind_eq_Some_conv Let_def)
  define g2 where "g2 = (if terrain_code (type t) > terrain_code LHO_EMPTY
               then g1\<lparr>numFilledTiles := numFilledTiles g1 - 1\<rparr> else g1)"
  define g3 where "g3 = (if headLoc (river g) = linIndex
               then (let r = (river g2)\<lparr>headLoc := oldHeadLoc (river g2)\<rparr>
                     in g2\<lparr>river := (if headLoc r = -1 then r\<lparr>newRiver := True\<rparr> else r)\<rparr>)
               else g2)"
  have "remove_terrain numRows numCols linIndex g =
     (if type t = LHO_RIVER
      then upd_neighbours numRows numCols (\<lambda>t. t\<lparr>numAdjRivers := numAdjRivers t - 1\<rparr>) ?i ?j g3
      else if type t = LHO_LANDSCAPE
      then upd_neighbours numRows numCols (\<lambda>t. t\<lparr>numAdjLands := numAdjLands t - 1\<rparr>) ?i ?j g3
      else Some g3)"
    unfolding remove_terrain_def g2_def g3_def using t s1 by (simp add: Let_def)
  with a have s2:
    "(if type t = LHO_RIVER
      then upd_neighbours numRows numCols (\<lambda>t. t\<lparr>numAdjRivers := numAdjRivers t - 1\<rparr>) ?i ?j g3
      else if type t = LHO_LANDSCAPE
      then upd_neighbours numRows numCols (\<lambda>t. t\<lparr>numAdjLands := numAdjLands t - 1\<rparr>) ?i ?j g3
      else Some g3) = Some g'"
    by simp
  have w3: "wf_grid numRows numCols g3"
    using tile_upd_wf[OF s1 w] by (simp add: g3_def g2_def Let_def wf_grid_def)
  have n3: "num_nonempty g3 = num_nonempty g1"
    by (simp add: g3_def g2_def Let_def)
  have "num_nonempty g' = num_nonempty g3"
  proof (cases "type t")
    case LHO_EMPTY
    then show ?thesis using s2 by simp
  next
    case LHO_RIVER
    then have "upd_neighbours numRows numCols (\<lambda>t. t\<lparr>numAdjRivers := numAdjRivers t - 1\<rparr>) ?i ?j g3 = Some g'"
      using s2 by simp
    from num_nonempty_upd_neighbours[OF this w3] show ?thesis by simp
  next
    case LHO_LANDSCAPE
    then have "upd_neighbours numRows numCols (\<lambda>t. t\<lparr>numAdjLands := numAdjLands t - 1\<rparr>) ?i ?j g3 = Some g'"
      using s2 by simp
    from num_nonempty_upd_neighbours[OF this w3] show ?thesis by simp
  qed
  also have "\<dots> = num_nonempty g - filled t"
    using num_nonempty_tile_upd[OF s1 w t] n3 by (simp add: filled_def)
  finally show ?thesis .
qed

text \<open>
  C9 (as amended). On a grid with \<open>maxTiles = numRows * numCols\<close>, \<open>numFilledTiles\<close> equal to
  the number of non-empty tiles and \<open>full = (numFilledTiles = maxTiles)\<close>: all three still
  hold after \<open>add_land\<close> and after \<open>add_river\<close>, accepted or not, and after \<open>remove_terrain\<close>
  on a grid that is not full. After \<open>remove_terrain\<close> on any grid the fill count still equals
  the number of non-empty tiles and \<open>maxTiles\<close> is unchanged, and \<open>full\<close> keeps the value it
  had, so that a grid that was full stays marked full.
\<close>

theorem fill_invariant_preserved:
  assumes w: "wf_grid numRows numCols g" and c: "0 < numCols"
    and f: "fill_inv numRows numCols g"
  shows "(\<forall>b g'. add_land numRows numCols linIndex g = Some (b, g') \<longrightarrow> fill_inv numRows numCols g') \<and>
         (\<forall>b g'. add_river numRows numCols linIndex g = Some (b, g') \<longrightarrow> fill_inv numRows numCols g') \<and>
         (\<forall>g'. remove_terrain numRows numCols linIndex g = Some g' \<longrightarrow>
               maxTiles g' = numRows * numCols \<and> numFilledTiles g' = num_nonempty g' \<and>
               full g' = full g \<and> (\<not> full g \<longrightarrow> fill_inv numRows numCols g'))"
proof (intro conjI allI impI)
  let ?i = "get_row_idx numCols linIndex" and ?j = "get_col_idx numCols linIndex"
  have room: "\<not> full g \<and> numFilledTiles g < maxTiles g"
    if "chk_loc numRows numCols linIndex g = Some True"
  proof -
    from chk_loc_True[OF that c] obtain t where
      "tile_at numRows numCols g ?i ?j = Some t" "type t = LHO_EMPTY" by blast
    from empty_tile_not_full[OF w this] f show ?thesis by (simp add: fill_inv_def)
  qed
  {
    fix b g' assume a: "add_land numRows numCols linIndex g = Some (b, g')"
    show "fill_inv numRows numCols g'"
    proof (cases b)
      case False
      with a have "add_land numRows numCols linIndex g = Some (False, g')" by simp
      from add_land_rejected[OF this] f show ?thesis by simp
    next
      case True
      with a have a': "add_land numRows numCols linIndex g = Some (True, g')" by simp
      note s = add_land_accepted[OF a' w c]
      show ?thesis
        using room[OF s(1)] s(4,5,7) add_land_nonempty[OF a' w c] f
        by (auto simp: fill_inv_def)
    qed
  }
  {
    fix b g' assume a: "add_river numRows numCols linIndex g = Some (b, g')"
    show "fill_inv numRows numCols g'"
    proof (cases b)
      case False
      with a have "add_river numRows numCols linIndex g = Some (False, g')" by simp
      from add_river_rejected[OF this] f show ?thesis by (simp add: fill_inv_def)
    next
      case True
      with a have a': "add_river numRows numCols linIndex g = Some (True, g')" by simp
      note s = add_river_accepted[OF a' w c]
      show ?thesis
        using room[OF s(3)] s(8,9,11) add_river_nonempty[OF a' w c] f
        by (auto simp: fill_inv_def)
    qed
  }
  {
    fix g' assume a: "remove_terrain numRows numCols linIndex g = Some g'"
    have k: "maxTiles g' = numRows * numCols \<and> numFilledTiles g' = num_nonempty g' \<and>
          full g' = full g \<and> numFilledTiles g' \<le> numFilledTiles g"
    proof (rule remove_terrain_spec[OF a w])
      fix t
      assume t: "tile_at numRows numCols g ?i ?j = Some t"
        and n: "numFilledTiles g' = numFilledTiles g - (if type t = LHO_EMPTY then 0 else 1)"
        and m: "maxTiles g' = maxTiles g" and fu: "full g' = full g"
      show ?thesis
        using remove_terrain_nonempty[OF a w t] n m fu f by (simp add: fill_inv_def filled_def)
    qed
    then show "maxTiles g' = numRows * numCols" "numFilledTiles g' = num_nonempty g'"
      "full g' = full g" by simp_all
    show "fill_inv numRows numCols g'" if nf: "\<not> full g"
    proof -
      have "int (nat numRows) * int (nat numCols) = numRows * numCols"
      proof (rule remove_terrain_spec[OF a w])
        assume "in_array numRows numCols ?i ?j"
        then show ?thesis by (simp add: in_array_def)
      qed
      with num_nonempty_le[OF w] f have "numFilledTiles g \<le> maxTiles g"
        by (simp add: fill_inv_def)
      with nf f have "numFilledTiles g < maxTiles g" by (simp add: fill_inv_def)
      with k nf f show ?thesis by (simp add: fill_inv_def)
    qed
  }
qed

theorem fill_invariant_preserved_witness:
  "fill_inv 3 3 land_corner \<and> \<not> full land_corner \<and>
   (\<exists>g'. remove_terrain 3 3 0 land_corner = Some g' \<and>
      maxTiles g' = 3 * 3 \<and> numFilledTiles g' = num_nonempty g' \<and> full g' = full land_corner \<and>
      fill_inv 3 3 g')"
proof -
  have w: "wf_grid 3 3 (allocate_grid 3 3)" by code_simp
  have f: "fill_inv 3 3 (allocate_grid 3 3)" by code_simp
  have w1: "wf_grid 3 3 land_corner" by code_simp
  have nf: "\<not> full land_corner" by code_simp
  have r: "remove_terrain 3 3 0 land_corner \<noteq> None" by code_simp
  from fill_invariant_preserved[OF w _ f, of 0] land_corner_built
  have f1: "fill_inv 3 3 land_corner" by auto
  from fill_invariant_preserved[OF w1 _ f1, of 0] r nf
  show ?thesis using f1 by auto
qed

theorem fill_invariant_preserved_counterexample:
  "map_option (fill_inv 1 1 \<circ> snd) (add_land 1 1 0 (allocate_grid 1 1)) = Some True \<and>
   map_option (fill_inv 1 1)
     (Option.bind (add_land 1 1 0 (allocate_grid 1 1)) (remove_terrain 1 1 0 \<circ> snd)) = Some False"
  by code_simp

subsection \<open>The value functions as sums\<close>

lemma diag_lands_built: "add_lands 2 2 [0, 3] (allocate_grid 2 2) = Some diag_lands"
  by code_simp

lemma bound_grid_built:
  "Option.bind (run_calls 3 3 [Place 8, Place 7] (allocate_grid 3 3))
     (add_lands 3 3 [0, 1, 2, 3, 5, 6]) = Some bound_grid"
  by code_simp

lemma tile_at_nat:
  "i < nat numRows \<Longrightarrow> j < nat numCols \<Longrightarrow>
     tile_at numRows numCols g (int i) (int j) = Some (grid g ! i ! j)"
  by (simp add: tile_at_def in_array_def zless_nat_eq_int_zless)

lemma fold_row:
  assumes "i < nat numRows" "\<And>j. j \<in> set js \<Longrightarrow> j < nat numCols"
  shows "fold (\<lambda>j acc. do {
             v \<leftarrow> acc;
             t \<leftarrow> tile_at numRows numCols g (int i) (int j);
             Some (v + c t)
           }) js (Some a) = Some (a + sum_list (map (\<lambda>j. c (grid g ! i ! j)) js))"
  using assms(2)
proof (induction js arbitrary: a)
  case Nil
  then show ?case by simp
next
  case (Cons j js)
  have "j < nat numCols" by (rule Cons.prems) simp
  then have "tile_at numRows numCols g (int i) (int j) = Some (grid g ! i ! j)"
    using assms(1) by (rule tile_at_nat[rotated])
  moreover have "\<And>k. k \<in> set js \<Longrightarrow> k < nat numCols" by (simp add: Cons.prems)
  ultimately show ?case using Cons.IH[of "a + c (grid g ! i ! j)"] by (simp add: add.assoc)
qed

lemma fold_rows:
  assumes "\<And>i. i \<in> set rs \<Longrightarrow> i < nat numRows"
  shows "fold (\<lambda>i. fold (\<lambda>j acc. do {
             v \<leftarrow> acc;
             t \<leftarrow> tile_at numRows numCols g (int i) (int j);
             Some (v + c t)
           }) [0..<nat numCols]) rs (Some a)
         = Some (a + sum_list (map (\<lambda>i. sum_list (map (\<lambda>j. c (grid g ! i ! j)) [0..<nat numCols])) rs))"
  using assms
proof (induction rs arbitrary: a)
  case Nil
  then show ?case by simp
next
  case (Cons i rs)
  have i: "i < nat numRows" by (rule Cons.prems) simp
  have r: "\<And>k. k \<in> set rs \<Longrightarrow> k < nat numRows" by (simp add: Cons.prems)
  have "fold (\<lambda>j acc. do {
             v \<leftarrow> acc;
             t \<leftarrow> tile_at numRows numCols g (int i) (int j);
             Some (v + c t)
           }) [0..<nat numCols] (Some a) =
        Some (a + sum_list (map (\<lambda>j. c (grid g ! i ! j)) [0..<nat numCols]))"
    by (rule fold_row[OF i]) simp
  then show ?case
    by (simp add: Cons.IH[OF r] add.assoc)
qed

lemma for_tiles_sum:
  "for_tiles numRows numCols g (\<lambda>t v. v + c t) =
     Some (sum_list (map (\<lambda>i. sum_list (map (\<lambda>j. c (grid g ! i ! j)) [0..<nat numCols]))
             [0..<nat numRows]))"
  unfolding for_tiles_def by (subst fold_rows) simp_all

lemma val_calc_mountain_sum:
  "val_calc_mountain ld numRows numCols g =
     Some (sum_list (map (\<lambda>i. sum_list (map (\<lambda>j. mountain_tile ld (grid g ! i ! j)) [0..<nat numCols]))
             [0..<nat numRows]))"
proof -
  have "(\<lambda>t v. if type t = LHO_LANDSCAPE then
         (let numRivers = numAdjRivers t; numMountains = numAdjLands t in
          (v + numMountains * landValue ld) + numMountains * numRivers * landValue ld)
       else v) = (\<lambda>t v. v + mountain_tile ld t)"
    by (intro ext) (simp add: mountain_tile_def Let_def)
  then show ?thesis
    unfolding val_calc_mountain_def by (simp only: for_tiles_sum)
qed

subsection \<open>The counters of grids built by the operations\<close>

lemma counters_consistent_iff:
  "counters_consistent numRows numCols g \<longleftrightarrow>
     (\<forall>a b t. tile_at numRows numCols g a b = Some t \<longrightarrow>
        numAdjRivers t = count_kind LHO_RIVER numRows numCols g (orthogonal a b) \<and>
        numAdjLands t = count_kind LHO_LANDSCAPE numRows numCols g (orthogonal a b))"
  (is "?L \<longleftrightarrow> ?R")
proof
  assume l: ?L
  show ?R
  proof (intro allI impI)
    fix a b t assume t: "tile_at numRows numCols g a b = Some t"
    then have ab: "in_array numRows numCols a b" by (simp add: tile_at_def split: if_splits)
    then have m: "nat a \<in> set [0..<nat numRows]" "nat b \<in> set [0..<nat numCols]"
      and i: "int (nat a) = a" "int (nat b) = b"
      by (auto simp: in_array_def)
    from l m have
      "(case tile_at numRows numCols g (int (nat a)) (int (nat b)) of
            None \<Rightarrow> False
          | Some t \<Rightarrow>
              numAdjRivers t = count_kind LHO_RIVER numRows numCols g (orthogonal (int (nat a)) (int (nat b))) \<and>
              numAdjLands t = count_kind LHO_LANDSCAPE numRows numCols g (orthogonal (int (nat a)) (int (nat b))))"
      unfolding counters_consistent_def list_all_iff by blast
    then have "(case tile_at numRows numCols g a b of
            None \<Rightarrow> False
          | Some t \<Rightarrow>
              numAdjRivers t = count_kind LHO_RIVER numRows numCols g (orthogonal a b) \<and>
              numAdjLands t = count_kind LHO_LANDSCAPE numRows numCols g (orthogonal a b))"
      by (simp only: i)
    then show "numAdjRivers t = count_kind LHO_RIVER numRows numCols g (orthogonal a b) \<and>
        numAdjLands t = count_kind LHO_LANDSCAPE numRows numCols g (orthogonal a b)"
      using t by simp
  qed
next
  assume r: ?R
  show ?L
    unfolding counters_consistent_def list_all_iff
  proof (intro ballI)
    fix i j assume "i \<in> set [0..<nat numRows]" "j \<in> set [0..<nat numCols]"
    then have t: "tile_at numRows numCols g (int i) (int j) = Some (grid g ! i ! j)"
      by (simp add: tile_at_nat)
    with r show "case tile_at numRows numCols g (int i) (int j) of
            None \<Rightarrow> False
          | Some t \<Rightarrow>
              numAdjRivers t = count_kind LHO_RIVER numRows numCols g (orthogonal (int i) (int j)) \<and>
              numAdjLands t = count_kind LHO_LANDSCAPE numRows numCols g (orthogonal (int i) (int j))"
      by simp
  qed
qed

lemma count_kind_Cons:
  "count_kind k numRows numCols g (x # cells) =
     (if kind_at numRows numCols g (fst x) (snd x) = Some k then 1 else 0) +
     count_kind k numRows numCols g cells"
  by (cases x) (simp add: count_kind_def)

lemma count_kind_Nil: "count_kind k numRows numCols g [] = 0"
  by (simp add: count_kind_def)

lemma count_kind_step:
  assumes same: "\<And>x y. \<not> (x = r \<and> y = c) \<Longrightarrow>
                   kind_at numRows numCols g' x y = kind_at numRows numCols g x y"
    and d: "distinct cells"
  shows "count_kind k numRows numCols g' cells =
           count_kind k numRows numCols g cells +
           (if (r, c) \<in> set cells
            then (if kind_at numRows numCols g' r c = Some k then 1 else 0) -
                 (if kind_at numRows numCols g r c = Some k then 1 else 0)
            else 0)"
  using d
proof (induction cells)
  case Nil
  then show ?case by (simp add: count_kind_Nil)
next
  case (Cons x cells)
  obtain u v where x: "x = (u, v)" by (cases x)
  from Cons.prems have dx: "(u, v) \<notin> set cells" and dc: "distinct cells" by (simp_all add: x)
  note ih = Cons.IH[OF dc]
  show ?case
  proof (cases "u = r \<and> v = c")
    case True
    then have "(r, c) \<notin> set cells" using dx by simp
    then show ?thesis using ih True by (simp add: count_kind_Cons x)
  next
    case False
    then have "kind_at numRows numCols g' u v = kind_at numRows numCols g u v" by (rule same)
    then show ?thesis using ih False by (simp add: count_kind_Cons x)
  qed
qed

lemma orthogonal_distinct: "distinct (orthogonal a b)"
  by (simp add: orthogonal_def)

lemma orthogonal_sym: "(a, b) \<in> set (orthogonal r c) \<longleftrightarrow> (r, c) \<in> set (orthogonal a b)"
  by (auto simp: orthogonal_def)

lemma counters_consistent_step:
  assumes k: "counters_consistent numRows numCols g"
    and T: "\<And>a b. tile_at numRows numCols g' a b =
           (if (a, b) \<in> set (orthogonal r c) then map_option F (tile_at numRows numCols g a b)
            else if a = r \<and> b = c then map_option S (tile_at numRows numCols g a b)
            else tile_at numRows numCols g a b)"
    and F: "\<And>t. type (F t) = type t" "\<And>t. numAdjRivers (F t) = numAdjRivers t + dR"
           "\<And>t. numAdjLands (F t) = numAdjLands t + dL"
    and S: "\<And>t. type (S t) = k1" "\<And>t. numAdjRivers (S t) = numAdjRivers t"
           "\<And>t. numAdjLands (S t) = numAdjLands t"
    and rc: "tile_at numRows numCols g r c = Some t0"
    and dR: "dR = (if k1 = LHO_RIVER then 1 else 0) - (if type t0 = LHO_RIVER then 1 else 0)"
    and dL: "dL = (if k1 = LHO_LANDSCAPE then 1 else 0) - (if type t0 = LHO_LANDSCAPE then 1 else 0)"
  shows "counters_consistent numRows numCols g'"
proof -
  have self: "tile_at numRows numCols g' r c = Some (S t0)"
    using rc by (simp add: T)
  have same: "kind_at numRows numCols g' x y = kind_at numRows numCols g x y"
    if "\<not> (x = r \<and> y = c)" for x y
  proof (cases "(x, y) \<in> set (orthogonal r c)")
    case True
    then have "tile_at numRows numCols g' x y = map_option F (tile_at numRows numCols g x y)"
      by (simp only: T if_True)
    then show ?thesis
      by (cases "tile_at numRows numCols g x y") (simp_all add: kind_at_def F)
  next
    case False
    then have "tile_at numRows numCols g' x y = tile_at numRows numCols g x y"
      using that by (auto simp: T)
    then show ?thesis by (simp add: kind_at_def)
  qed
  have cnt: "count_kind k numRows numCols g' (orthogonal a b) =
           count_kind k numRows numCols g (orthogonal a b) +
           (if (a, b) \<in> set (orthogonal r c)
            then (if k1 = k then 1 else 0) - (if type t0 = k then 1 else 0) else 0)" for k a b
    using count_kind_step[of r c numRows numCols g' g "orthogonal a b" k, OF same orthogonal_distinct]
    by (simp add: kind_at_def self rc S orthogonal_sym[of a b r c])
  show ?thesis
    unfolding counters_consistent_iff
  proof (intro allI impI)
    fix a b t' assume t': "tile_at numRows numCols g' a b = Some t'"
    then have "in_array numRows numCols a b" by (simp add: tile_at_def split: if_splits)
    then obtain t where t: "tile_at numRows numCols g a b = Some t" by (simp add: tile_at_def)
    from k t have kt: "numAdjRivers t = count_kind LHO_RIVER numRows numCols g (orthogonal a b)"
      "numAdjLands t = count_kind LHO_LANDSCAPE numRows numCols g (orthogonal a b)"
      unfolding counters_consistent_iff by blast+
    consider (nb) "(a, b) \<in> set (orthogonal r c)" | (self) "a = r" "b = c"
      | (other) "(a, b) \<notin> set (orthogonal r c)" "(a = r \<and> b = c) = False"
      by blast
    then show "numAdjRivers t' = count_kind LHO_RIVER numRows numCols g' (orthogonal a b) \<and>
        numAdjLands t' = count_kind LHO_LANDSCAPE numRows numCols g' (orthogonal a b)"
    proof cases
      case nb
      then have "t' = F t" using t t' by (simp add: T)
      then show ?thesis using nb kt by (simp add: cnt F dR dL)
    next
      case self
      then have "t' = S t" using t t' by (simp add: T)
      then show ?thesis using self kt by (simp add: cnt S)
    next
      case other
      have "tile_at numRows numCols g' a b = tile_at numRows numCols g a b"
        by (simp only: T other if_False)
      then have "t' = t" using t t' by simp
      then show ?thesis using other(1) kt by (simp add: cnt)
    qed
  qed
qed

lemma counters_consistent_grid:
  "grid g' = grid g \<Longrightarrow> counters_consistent numRows numCols g' = counters_consistent numRows numCols g"
  by (simp add: counters_consistent_def tile_at_def count_kind_def kind_at_def)

lemma counters_consistent_allocate:
  "counters_consistent numRows numCols (allocate_grid numRows numCols)"
proof -
  have k: "kind_at numRows numCols (allocate_grid numRows numCols) a b \<noteq> Some LHO_RIVER \<and>
           kind_at numRows numCols (allocate_grid numRows numCols) a b \<noteq> Some LHO_LANDSCAPE" for a b
    by (auto simp: kind_at_def tile_at_def in_array_def allocate_grid_def empty_tile_def)
  have z: "count_kind LHO_RIVER numRows numCols (allocate_grid numRows numCols) cells = 0 \<and>
           count_kind LHO_LANDSCAPE numRows numCols (allocate_grid numRows numCols) cells = 0" for cells
    by (induction cells) (simp_all add: count_kind_Nil count_kind_Cons k)
  have t: "tile_at numRows numCols (allocate_grid numRows numCols) a b = Some t \<Longrightarrow>
           numAdjRivers t = 0 \<and> numAdjLands t = 0" for a b t
    by (auto simp: tile_at_def in_array_def allocate_grid_def empty_tile_def split: if_splits)
  show ?thesis unfolding counters_consistent_iff using z t by simp
qed

lemma add_land_consistent:
  assumes a: "add_land numRows numCols linIndex g = Some (ok, g')"
    and w: "wf_grid numRows numCols g" and c: "0 < numCols"
    and k: "counters_consistent numRows numCols g"
  shows "counters_consistent numRows numCols g'"
proof (cases ok)
  case False
  with a have "add_land numRows numCols linIndex g = Some (False, g')" by simp
  from add_land_rejected[OF this] k show ?thesis by simp
next
  case True
  with a have a': "add_land numRows numCols linIndex g = Some (True, g')" by simp
  note s = add_land_accepted[OF a' w c]
  from chk_loc_True[OF s(1) c] obtain t0 where
    t0: "tile_at numRows numCols g (get_row_idx numCols linIndex) (get_col_idx numCols linIndex) = Some t0"
        "type t0 = LHO_EMPTY"
    by blast
  show ?thesis
    by (rule counters_consistent_step[OF k s(8) _ _ _ _ _ _ t0(1), where ?k1.0 = LHO_LANDSCAPE
          and dR = 0 and dL = 1])
       (simp_all add: t0(2))
qed

lemma add_river_consistent:
  assumes a: "add_river numRows numCols linIndex g = Some (ok, g')"
    and w: "wf_grid numRows numCols g" and c: "0 < numCols"
    and k: "counters_consistent numRows numCols g"
  shows "counters_consistent numRows numCols g'"
proof (cases ok)
  case False
  with a have "add_river numRows numCols linIndex g = Some (False, g')" by simp
  from add_river_rejected[OF this] have "grid g' = grid g" by simp
  from counters_consistent_grid[OF this] k show ?thesis by simp
next
  case True
  with a have a': "add_river numRows numCols linIndex g = Some (True, g')" by simp
  note s = add_river_accepted[OF a' w c]
  from chk_loc_True[OF s(3) c] obtain t0 where
    t0: "tile_at numRows numCols g (get_row_idx numCols linIndex) (get_col_idx numCols linIndex) = Some t0"
        "type t0 = LHO_EMPTY"
    by blast
  show ?thesis
    by (rule counters_consistent_step[OF k s(12) _ _ _ _ _ _ t0(1), where ?k1.0 = LHO_RIVER
          and dR = 1 and dL = 0])
       (simp_all add: t0(2))
qed

lemma remove_terrain_consistent:
  assumes a: "remove_terrain numRows numCols linIndex g = Some g'"
    and w: "wf_grid numRows numCols g"
    and k: "counters_consistent numRows numCols g"
  shows "counters_consistent numRows numCols g'"
proof (rule remove_terrain_spec[OF a w])
  fix t
  assume t: "tile_at numRows numCols g (get_row_idx numCols linIndex) (get_col_idx numCols linIndex) = Some t"
    and x: "\<And>a b. tile_at numRows numCols g' a b =
           (if (a, b) \<in> set (orthogonal (get_row_idx numCols linIndex) (get_col_idx numCols linIndex))
            then map_option (dec_counter (type t)) (tile_at numRows numCols g a b)
            else if a = get_row_idx numCols linIndex \<and> b = get_col_idx numCols linIndex
            then map_option (\<lambda>t. t\<lparr>type := LHO_EMPTY\<rparr>) (tile_at numRows numCols g a b)
            else tile_at numRows numCols g a b)"
  show ?thesis
    by (rule counters_consistent_step[OF k x _ _ _ _ _ _ t, where ?k1.0 = LHO_EMPTY
          and dR = "- (if type t = LHO_RIVER then 1 else 0)"
          and dL = "- (if type t = LHO_LANDSCAPE then 1 else 0)"])
       (cases "type t"; simp add: dec_counter_def)+
qed

lemma run_grid_calls_consistent:
  assumes c: "0 < numCols"
  shows "wf_grid numRows numCols g \<Longrightarrow> counters_consistent numRows numCols g \<Longrightarrow>
         run_grid_calls numRows numCols cs g = Some g' \<Longrightarrow>
         wf_grid numRows numCols g' \<and> counters_consistent numRows numCols g'"
proof (induction cs arbitrary: g)
  case Nil
  then show ?case by simp
next
  case (Cons x cs)
  show ?case
  proof (cases x)
    case (AddRiver i)
    with Cons.prems(3) obtain ok g1 where
      a: "add_river numRows numCols i g = Some (ok, g1)" and
      r: "run_grid_calls numRows numCols cs g1 = Some g'"
      by (auto split: option.splits)
    have "wf_grid numRows numCols g1"
    proof (cases ok)
      case True
      with a have "add_river numRows numCols i g = Some (True, g1)" by simp
      from add_river_accepted(4)[OF this Cons.prems(1) c] show ?thesis .
    next
      case False
      with a have "add_river numRows numCols i g = Some (False, g1)" by simp
      from add_river_rejected[OF this] Cons.prems(1) show ?thesis by simp
    qed
    from Cons.IH[OF this add_river_consistent[OF a Cons.prems(1) c Cons.prems(2)] r]
    show ?thesis .
  next
    case (AddLand i)
    with Cons.prems(3) obtain ok g1 where
      a: "add_land numRows numCols i g = Some (ok, g1)" and
      r: "run_grid_calls numRows numCols cs g1 = Some g'"
      by (auto split: option.splits)
    have "wf_grid numRows numCols g1"
    proof (cases ok)
      case True
      with a have "add_land numRows numCols i g = Some (True, g1)" by simp
      from add_land_accepted(2)[OF this Cons.prems(1) c] show ?thesis .
    next
      case False
      with a have "add_land numRows numCols i g = Some (False, g1)" by simp
      from add_land_rejected[OF this] Cons.prems(1) show ?thesis by simp
    qed
    from Cons.IH[OF this add_land_consistent[OF a Cons.prems(1) c Cons.prems(2)] r]
    show ?thesis .
  next
    case (RemoveTerrain i)
    with Cons.prems(3) obtain g1 where
      a: "remove_terrain numRows numCols i g = Some g1" and
      r: "run_grid_calls numRows numCols cs g1 = Some g'"
      by (auto split: option.splits)
    have "wf_grid numRows numCols g1"
      by (rule remove_terrain_spec[OF a Cons.prems(1)])
    from Cons.IH[OF this remove_terrain_consistent[OF a Cons.prems(1) Cons.prems(2)] r]
    show ?thesis .
  qed
qed

lemma wf_grid_allocate: "wf_grid numRows numCols (allocate_grid numRows numCols)"
  by (simp add: wf_grid_def allocate_grid_def list_all_iff)

lemma val_calc_mountain_consistent:
  assumes k: "counters_consistent numRows numCols g"
  shows "val_calc_mountain ld numRows numCols g =
           Some (mountain_formula orthogonal ld numRows numCols g)"
proof -
  have cell: "mountain_tile ld (grid g ! i ! j) =
      (if kind_at numRows numCols g (int i) (int j) = Some LHO_LANDSCAPE then
           (let adjL = count_kind LHO_LANDSCAPE numRows numCols g (orthogonal (int i) (int j));
                adjR = count_kind LHO_RIVER numRows numCols g (orthogonal (int i) (int j))
            in adjL * landValue ld + adjL * adjR * landValue ld)
         else 0)"
    if i: "i \<in> set [0..<nat numRows]" and j: "j \<in> set [0..<nat numCols]" for i j
  proof -
    have t: "tile_at numRows numCols g (int i) (int j) = Some (grid g ! i ! j)"
      using i j by (simp add: tile_at_nat)
    from k i j have
      "(case tile_at numRows numCols g (int i) (int j) of
            None \<Rightarrow> False
          | Some t \<Rightarrow>
              numAdjRivers t = count_kind LHO_RIVER numRows numCols g (orthogonal (int i) (int j)) \<and>
              numAdjLands t = count_kind LHO_LANDSCAPE numRows numCols g (orthogonal (int i) (int j)))"
      unfolding counters_consistent_def list_all_iff by blast
    then show ?thesis using t by (simp add: mountain_tile_def kind_at_def Let_def)
  qed
  have "sum_list (map (\<lambda>i. sum_list (map (\<lambda>j. mountain_tile ld (grid g ! i ! j)) [0..<nat numCols]))
             [0..<nat numRows]) = mountain_formula orthogonal ld numRows numCols g"
    unfolding mountain_formula_def
    by (intro arg_cong[where f = sum_list] map_cong refl) (simp only: cell)
  then show ?thesis by (simp only: val_calc_mountain_sum)
qed

text \<open>
  C1 (as amended). On every grid built from the empty grid by calls of \<open>add_land\<close>,
  \<open>add_river\<close> and \<open>remove_terrain\<close>, each tile's counters are the numbers of its orthogonal
  river and landscape neighbours, and the mountain score is the sum over the landscape tiles
  of \<open>adjL * v + adjL * adjR * v\<close> with those orthogonal counts \<open>adjL\<close> and \<open>adjR\<close>; diagonal
  neighbours are not counted.
\<close>

theorem val_calc_mountain_orthogonal:
  assumes c: "0 < numCols"
    and r: "run_grid_calls numRows numCols cs (allocate_grid numRows numCols) = Some g"
  shows "counters_consistent numRows numCols g \<and>
         val_calc_mountain ld numRows numCols g =
           Some (mountain_formula orthogonal ld numRows numCols g)"
proof -
  from run_grid_calls_consistent[OF c wf_grid_allocate counters_consistent_allocate r]
  have k: "counters_consistent numRows numCols g" by simp
  from val_calc_mountain_consistent[OF k] k show ?thesis by simp
qed

theorem val_calc_mountain_orthogonal_witness:
  "run_grid_calls 3 3
     [AddRiver 8, AddRiver 7, AddLand 0, AddLand 1, AddLand 2, AddLand 3, AddLand 5, AddLand 6]
     (allocate_grid 3 3) = Some bound_grid \<and>
   counters_consistent 3 3 bound_grid \<and>
   val_calc_mountain mountain_land 3 3 bound_grid = Some 72"
proof -
  have r: "run_grid_calls 3 3
     [AddRiver 8, AddRiver 7, AddLand 0, AddLand 1, AddLand 2, AddLand 3, AddLand 5, AddLand 6]
     (allocate_grid 3 3) = Some bound_grid" by code_simp
  have v: "mountain_formula orthogonal mountain_land 3 3 bound_grid = 72" by code_simp
  from val_calc_mountain_orthogonal[OF _ r, of mountain_land] r v show ?thesis by simp
qed

theorem val_calc_mountain_diagonal_counterexample:
  "run_grid_calls 2 2 [AddLand 0, AddLand 3] (allocate_grid 2 2) = Some diag_lands \<and>
   counters_consistent 2 2 diag_lands \<and>
   val_calc_mountain mountain_land 2 2 diag_lands = Some 0 \<and>
   mountain_formula spec_mountain_neighbours mountain_land 2 2 diag_lands = 12"
  by code_simp

subsection \<open>The river as a path\<close>

lemma river_cells_mem:
  "k \<in> set (river_cells numRows numCols g) \<longleftrightarrow>
     0 \<le> k \<and> k < numRows * numCols \<and>
     kind_at numRows numCols g (get_row_idx numCols k) (get_col_idx numCols k) = Some LHO_RIVER"
proof -
  have "k \<in> int ` {0..<nat (numRows * numCols)} \<longleftrightarrow> 0 \<le> k \<and> k < numRows * numCols"
  proof
    assume "k \<in> int ` {0..<nat (numRows * numCols)}"
    then show "0 \<le> k \<and> k < numRows * numCols" by auto
  next
    assume a: "0 \<le> k \<and> k < numRows * numCols"
    then have "nat k \<in> {0..<nat (numRows * numCols)}" by auto
    moreover have "k = int (nat k)" using a by simp
    ultimately show "k \<in> int ` {0..<nat (numRows * numCols)}" by (rule rev_image_eqI)
  qed
  then show ?thesis by (auto simp: river_cells_def)
qed

lemma river_cells_cong:
  assumes "\<And>a b. kind_at numRows numCols g' a b = kind_at numRows numCols g a b"
  shows "river_cells numRows numCols g' = river_cells numRows numCols g"
  by (simp add: river_cells_def assms)

lemma river_cells_allocate: "river_cells numRows numCols (allocate_grid numRows numCols) = []"
proof -
  have "kind_at numRows numCols (allocate_grid numRows numCols) a b \<noteq> Some LHO_RIVER" for a b
    by (auto simp: kind_at_def tile_at_def in_array_def allocate_grid_def empty_tile_def)
  then show ?thesis by (simp add: river_cells_def)
qed

lemma river_inv_allocate: "river_inv numRows numCols (allocate_grid numRows numCols) []"
  by (simp add: river_inv_def wf_grid_allocate is_river_path_def river_cells_allocate)
     (simp add: allocate_grid_def)

lemma add_river_kinds:
  assumes a: "add_river numRows numCols linIndex g = Some (True, g')"
    and w: "wf_grid numRows numCols g" and c: "0 < numCols"
  shows "kind_at numRows numCols g' a b =
           (if a = get_row_idx numCols linIndex \<and> b = get_col_idx numCols linIndex
            then Some LHO_RIVER else kind_at numRows numCols g a b)"
proof -
  let ?i = "get_row_idx numCols linIndex" and ?j = "get_col_idx numCols linIndex"
  note s = add_river_accepted[OF a w c]
  from chk_loc_True[OF s(3) c] obtain t where
    t: "tile_at numRows numCols g ?i ?j = Some t" by blast
  consider (nb) "(a, b) \<in> set (orthogonal ?i ?j)" | (self) "a = ?i" "b = ?j"
    | (other) "(a, b) \<notin> set (orthogonal ?i ?j)" "\<not> (a = ?i \<and> b = ?j)"
    by blast
  then show ?thesis
  proof cases
    case nb
    then have ne: "(a = ?i \<and> b = ?j) = False" by auto
    have "tile_at numRows numCols g' a b =
            map_option (\<lambda>t. t\<lparr>numAdjRivers := numAdjRivers t + 1\<rparr>) (tile_at numRows numCols g a b)"
      by (simp only: s(12) nb if_True)
    then show ?thesis
      by (cases "tile_at numRows numCols g a b") (simp_all add: kind_at_def ne)
  next
    case self
    then show ?thesis using t by (simp add: kind_at_def s(12))
  next
    case other
    have "tile_at numRows numCols g' a b = tile_at numRows numCols g a b"
      by (simp only: s(12) other if_False)
    then show ?thesis using other(2) by (auto simp: kind_at_def)
  qed
qed

lemma add_river_undo:
  assumes a: "add_river numRows numCols linIndex g = Some (True, g1)"
    and r: "remove_terrain numRows numCols linIndex g1 = Some g2"
    and w: "wf_grid numRows numCols g" and c: "0 < numCols"
  shows "wf_grid numRows numCols g2"
    and "kind_at numRows numCols g2 a b = kind_at numRows numCols g a b"
    and "headLoc (river g2) = headLoc (river g)"
    and "newRiver (river g2) = (headLoc (river g) = -1)"
proof -
  let ?i = "get_row_idx numCols linIndex" and ?j = "get_col_idx numCols linIndex"
  note s = add_river_accepted[OF a w c]
  from chk_loc_True[OF s(3) c] obtain t0 where
    t0: "tile_at numRows numCols g ?i ?j = Some t0" "type t0 = LHO_EMPTY" by blast
  have "wf_grid numRows numCols g2 \<and>
        kind_at numRows numCols g2 a b = kind_at numRows numCols g a b \<and>
        headLoc (river g2) = headLoc (river g) \<and>
        newRiver (river g2) = (headLoc (river g) = -1)"
  proof (rule remove_terrain_spec[OF r s(4)])
    fix t
    assume w2: "wf_grid numRows numCols g2"
      and rv: "river g2 = restore_head linIndex (river g1)"
      and x2: "\<And>a b. tile_at numRows numCols g2 a b =
           (if (a, b) \<in> set (orthogonal ?i ?j)
            then map_option (dec_counter (type t)) (tile_at numRows numCols g1 a b)
            else if a = ?i \<and> b = ?j
            then map_option (\<lambda>t. t\<lparr>type := LHO_EMPTY\<rparr>) (tile_at numRows numCols g1 a b)
            else tile_at numRows numCols g1 a b)"
    have dk: "type (dec_counter k u) = type u" for k u
      by (cases k) (simp_all add: dec_counter_def)
    have k21: "kind_at numRows numCols g2 a b =
           (if a = ?i \<and> b = ?j then map_option (\<lambda>_. LHO_EMPTY) (kind_at numRows numCols g1 a b)
            else kind_at numRows numCols g1 a b)"
    proof -
      consider (nb) "(a, b) \<in> set (orthogonal ?i ?j)" | (self) "a = ?i" "b = ?j"
        | (other) "(a, b) \<notin> set (orthogonal ?i ?j)" "\<not> (a = ?i \<and> b = ?j)"
        by blast
      then show ?thesis
      proof cases
        case nb
        then have ne: "(a = ?i \<and> b = ?j) = False" by auto
        have "tile_at numRows numCols g2 a b =
                map_option (dec_counter (type t)) (tile_at numRows numCols g1 a b)"
          by (simp only: x2 nb if_True)
        then show ?thesis
          by (cases "tile_at numRows numCols g1 a b") (simp_all add: kind_at_def ne dk)
      next
        case self
        then show ?thesis
          by (cases "tile_at numRows numCols g1 ?i ?j") (simp_all add: kind_at_def x2)
      next
        case other
        have "tile_at numRows numCols g2 a b = tile_at numRows numCols g1 a b"
          by (simp only: x2 other if_False)
        then show ?thesis using other(2) by (auto simp: kind_at_def)
      qed
    qed
    have k0: "kind_at numRows numCols g ?i ?j = Some LHO_EMPTY"
      using t0 by (simp add: kind_at_def)
    have "kind_at numRows numCols g2 a b = kind_at numRows numCols g a b"
      using k0 by (simp add: k21 add_river_kinds[OF a w c])
    moreover have "headLoc (river g2) = headLoc (river g)"
      "newRiver (river g2) = (headLoc (river g) = -1)"
      using rv s(5,6,7) by (simp_all add: restore_head_def)
    ultimately show ?thesis using w2 by simp
  qed
  then show "wf_grid numRows numCols g2"
    and "kind_at numRows numCols g2 a b = kind_at numRows numCols g a b"
    and "headLoc (river g2) = headLoc (river g)"
    and "newRiver (river g2) = (headLoc (river g) = -1)"
    by simp_all
qed

lemma river_inv_last:
  assumes "river_inv numRows numCols g p" "p \<noteq> []"
  shows "0 \<le> last p"
proof -
  from assms(1) have "set p = set (river_cells numRows numCols g)"
    by (simp add: river_inv_def is_river_path_def)
  moreover have "last p \<in> set p" using assms(2) by simp
  ultimately have "last p \<in> set (river_cells numRows numCols g)" by simp
  then show ?thesis by (simp add: river_cells_mem)
qed

lemma river_inv_place:
  assumes i: "river_inv numRows numCols g p" and c: "0 < numCols"
    and a: "add_river numRows numCols linIndex g = Some (True, g')"
  shows "river_inv numRows numCols g' (p @ [linIndex])"
proof -
  from i have w: "wf_grid numRows numCols g"
    and d: "distinct p" and e: "set p = set (river_cells numRows numCols g)"
    and sc: "successively (adjacent_cells numCols) p"
    and b: "p \<noteq> [] \<longrightarrow> on_border numRows numCols (hd p)"
    and h: "headLoc (river g) = (if p = [] then -1 else last p)"
    and n: "newRiver (river g) = (p = [])"
    by (simp_all add: river_inv_def is_river_path_def)
  note s = add_river_accepted[OF a w c]
  from chk_loc_True[OF s(3) c] obtain t where
    rng: "0 \<le> linIndex" "linIndex < numRows * numCols" and
    t: "tile_at numRows numCols g (get_row_idx numCols linIndex) (get_col_idx numCols linIndex) = Some t"
       "type t = LHO_EMPTY"
    by blast
  have notin: "linIndex \<notin> set p"
    using t by (simp add: e river_cells_mem kind_at_def)
  have mem: "k \<in> set (river_cells numRows numCols g') \<longleftrightarrow>
             k = linIndex \<or> k \<in> set (river_cells numRows numCols g)" for k
  proof (cases "k = linIndex")
    case True
    then show ?thesis using rng by (simp add: river_cells_mem add_river_kinds[OF a w c])
  next
    case False
    then have "(get_row_idx numCols k = get_row_idx numCols linIndex \<and>
                 get_col_idx numCols k = get_col_idx numCols linIndex) = False"
      using idx_inj by blast
    then show ?thesis using False by (auto simp: river_cells_mem add_river_kinds[OF a w c])
  qed
  have adj: "p \<noteq> [] \<longrightarrow> adjacent_cells numCols (last p) linIndex"
    using s(2) h river_inv_last[OF i] by auto
  have "distinct (p @ [linIndex])" using d notin by simp
  moreover have "set (p @ [linIndex]) = set (river_cells numRows numCols g')"
    using mem e by auto
  moreover have "successively (adjacent_cells numCols) (p @ [linIndex])"
    using sc adj by (auto simp: successively_append_iff)
  moreover have "on_border numRows numCols (hd (p @ [linIndex]))"
    using b s(1) n by (cases p) simp_all
  ultimately show ?thesis
    using s(4,5,7) by (simp add: river_inv_def is_river_path_def)
qed

lemma river_inv_undo:
  assumes i: "river_inv numRows numCols g p" and c: "0 < numCols"
    and a: "add_river numRows numCols linIndex g = Some (True, g1)"
    and r: "remove_terrain numRows numCols linIndex g1 = Some g2"
  shows "river_inv numRows numCols g2 p"
proof -
  from i have w: "wf_grid numRows numCols g" by (simp add: river_inv_def)
  note u = add_river_undo[OF a r w c]
  have rc: "river_cells numRows numCols g2 = river_cells numRows numCols g"
    by (rule river_cells_cong) (rule u(2))
  have "headLoc (river g) = -1 \<longleftrightarrow> p = []"
    using i river_inv_last[OF i] by (auto simp: river_inv_def)
  then show ?thesis
    using i u(1,3,4) by (simp add: river_inv_def is_river_path_def rc)
qed

lemma river_calls_induct [case_names Nil Undo Last Place Remove]:
  assumes "P []"
    and "\<And>i k cs. P cs \<Longrightarrow> P (Place i # Remove k # cs)"
    and "\<And>i. P [Place i]"
    and "\<And>i v cs. P (Place v # cs) \<Longrightarrow> P (Place i # Place v # cs)"
    and "\<And>k cs. P (Remove k # cs)"
  shows "P cs"
proof (induction cs rule: removes_undo.induct)
qed (auto intro: assms)

lemma river_inv_run:
  assumes c: "0 < numCols"
  shows "removes_undo cs \<Longrightarrow> river_inv numRows numCols g p \<Longrightarrow>
         run_calls numRows numCols cs g = Some g' \<Longrightarrow>
         river_inv numRows numCols g' (p @ placed cs)"
proof (induction cs arbitrary: g p rule: river_calls_induct)
  case Nil
  then show ?case by simp
next
  case (Undo i k cs)
  from Undo.prems(1) have ik: "i = k" and ru: "removes_undo cs" by simp_all
  from Undo.prems(3) obtain g1 g2 where
    a: "add_river numRows numCols i g = Some (True, g1)" and
    r: "remove_terrain numRows numCols k g1 = Some g2" and
    rest: "run_calls numRows numCols cs g2 = Some g'"
    by (auto split: option.splits bool.splits)
  from river_inv_undo[OF Undo.prems(2) c a r[folded ik]]
  have "river_inv numRows numCols g2 p" .
  from Undo.IH[OF ru this rest] show ?case by simp
next
  case (Last i)
  from Last.prems(3) obtain g1 where
    a: "add_river numRows numCols i g = Some (True, g1)" and "g' = g1"
    by (auto split: option.splits bool.splits)
  with river_inv_place[OF Last.prems(2) c a] show ?case by simp
next
  case (Place i v va)
  from Place.prems(3) obtain g1 where
    a: "add_river numRows numCols i g = Some (True, g1)" and
    rest: "run_calls numRows numCols (Place v # va) g1 = Some g'"
    by (auto split: option.splits bool.splits)
  from Place.prems(1) have ru: "removes_undo (Place v # va)" by simp
  from Place.IH[OF ru river_inv_place[OF Place.prems(2) c a] rest]
  show ?case by simp
next
  case (Remove k cs)
  then show ?case by simp
qed

text \<open>
  C3 (as amended). Starting from an empty grid, after any sequence of accepted \<open>add_river\<close>
  calls and \<open>remove_terrain\<close> calls in which every removal takes away the tile placed by the
  call just before it (so each removal removes the current head, and no two removals follow
  one another), the river tiles are exactly the cells placed and not removed, in the order
  placed: a simple path of orthogonal steps whose first cell lies on the border.
\<close>

theorem river_tiles_form_path:
  assumes "0 < numCols" and "removes_undo cs"
    and "run_calls numRows numCols cs (allocate_grid numRows numCols) = Some g"
  shows "is_river_path numRows numCols g (placed cs)"
  using river_inv_run[OF assms(1,2) river_inv_allocate assms(3)]
  by (simp add: river_inv_def)

theorem river_tiles_form_path_witness:
  "removes_undo [Place 1, Place 4, Place 5, Remove 5, Place 3] \<and>
   placed [Place 1, Place 4, Place 5, Remove 5, Place 3] = [1, 4, 3] \<and>
   map_option (river_cells 3 3)
     (run_calls 3 3 [Place 1, Place 4, Place 5, Remove 5, Place 3] (allocate_grid 3 3)) = Some [1, 3, 4] \<and>
   (\<exists>g. run_calls 3 3 [Place 1, Place 4, Place 5, Remove 5, Place 3] (allocate_grid 3 3) = Some g \<and>
        is_river_path 3 3 g [1, 4, 3])"
proof -
  have u: "removes_undo [Place 1, Place 4, Place 5, Remove 5, Place 3]" by simp
  have p: "placed [Place 1, Place 4, Place 5, Remove 5, Place 3] = [1, 4, 3]" by simp
  have c: "map_option (river_cells 3 3)
     (run_calls 3 3 [Place 1, Place 4, Place 5, Remove 5, Place 3] (allocate_grid 3 3)) = Some [1, 3, 4]"
    by code_simp
  then obtain g where
    g: "run_calls 3 3 [Place 1, Place 4, Place 5, Remove 5, Place 3] (allocate_grid 3 3) = Some g"
    by auto
  from river_tiles_form_path[OF _ u g] p have "is_river_path 3 3 g [1, 4, 3]" by simp
  with u p c g show ?thesis by simp
qed

theorem river_tiles_form_path_counterexample:
  "map_option (river_cells 3 3)
     (run_calls 3 3 [Place 1, Place 4, Remove 4, Remove 1, Place 4] (allocate_grid 3 3)) = Some [4] \<and>
   \<not> on_border 3 3 4 \<and>
   map_option (river_cells 1 3)
     (run_calls 1 3 [Place 0, Place 1, Place 2, Remove 1] (allocate_grid 1 3)) = Some [0, 2] \<and>
   \<not> adjacent_cells 3 0 2 \<and> \<not> adjacent_cells 3 2 0"
  by code_simp

text \<open>
  C2. The pruning test of \<open>recurse_grid\<close> takes \<open>val + maxTileVal * (maxTiles - numFilledTiles)\<close>
  for an upper bound of every completion, and that is what the claim states; the code's
  constants do not give one. In the complete run on a 2 by 2 grid with mountains (a recursion
  budget of 5, above the 4 cells), the call on the grid
  with a river at cell 0, mountains at cells 1 and 2 and cell 3 empty returns at the pruning
  test with \<open>bestVal = 24\<close>: its value is 0 and its bound \<open>0 + 24 * 1\<close>. Placing a mountain at
  cell 3 is accepted and gives a full grid of value 36.
\<close>

theorem pruning_discards_better_completion:
  "(24, pruned_node) \<in> set (pruned_log (snd
      (recurse_grid 5 mountain_land 2 2 (allocate_grid 2 2) initial_state))) \<and>
   val_calc mountain_land 2 2 pruned_node = Some 0 \<and>
   maxTileVal mountain_land * (maxTiles pruned_node - numFilledTiles pruned_node) = 24 \<and>
   map_option fst (add_land 2 2 3 pruned_node) = Some True \<and>
   map_option (full \<circ> snd) (add_land 2 2 3 pruned_node) = Some True \<and>
   Option.bind (add_land 2 2 3 pruned_node) (val_calc mountain_land 2 2 \<circ> snd) = Some 36"
  by code_simp

lemma pruning_bound_exceeded_meadow:
  "val_calc meadow_land 3 3 bound_grid = Some 24 \<and>
   maxTileVal meadow_land * (maxTiles bound_grid - numFilledTiles bound_grid) = 9 \<and>
   map_option fst (add_river 3 3 4 bound_grid) = Some True \<and>
   map_option (full \<circ> snd) (add_river 3 3 4 bound_grid) = Some True \<and>
   Option.bind (add_river 3 3 4 bound_grid) (val_calc meadow_land 3 3 \<circ> snd) = Some 36 \<and>
   fst (recurse_grid (Suc fuel) meadow_land 3 3 bound_grid
          (initial_state\<lparr>bestVal := 33, initial_recursion := False\<rparr>)) = Inr bound_grid"
proof -
  have v: "val_calc meadow_land 3 3 bound_grid = Some 24" by code_simp
  have m: "maxTileVal meadow_land * (maxTiles bound_grid - numFilledTiles bound_grid) = 9" by code_simp
  have f: "\<not> full bound_grid" by code_simp
  have r: "map_option fst (add_river 3 3 4 bound_grid) = Some True \<and>
   map_option (full \<circ> snd) (add_river 3 3 4 bound_grid) = Some True \<and>
   Option.bind (add_river 3 3 4 bound_grid) (val_calc meadow_land 3 3 \<circ> snd) = Some 36"
    by code_simp
  have "fst (recurse_grid (Suc fuel) meadow_land 3 3 bound_grid
          (initial_state\<lparr>bestVal := 33, initial_recursion := False\<rparr>)) = Inr bound_grid"
    using v m f by simp
  with v m r show ?thesis by simp
qed

section \<open>The search\<close>

lemma val_calc_sum:
  "val_calc ld numRows numCols g =
     Some (sum_list (map (\<lambda>i. sum_list (map (\<lambda>j. tile_score ld (grid g ! i ! j)) [0..<nat numCols]))
             [0..<nat numRows]))"
proof (cases "landChoice ld")
  case LHO_MOUNTAIN
  have "mountain_tile ld = tile_score ld"
    by (rule ext) (simp add: tile_score_def mountain_tile_def LHO_MOUNTAIN)
  then show ?thesis
    by (simp add: val_calc_def LHO_MOUNTAIN val_calc_mountain_sum)
next
  case LHO_SUBURB
  have "(\<lambda>t v.
       if type t = LHO_LANDSCAPE then
         (let numRivers = numAdjRivers t; numSuburbs = numAdjLands t in
          if numSuburbs = 4 then v + 2 * landValue ld
          else if numRivers \<noteq> 0 then v + (landValue ld * 2) * numRivers
          else v + landValue ld)
       else v) = (\<lambda>t v. v + tile_score ld t)"
    by (intro ext) (simp add: tile_score_def LHO_SUBURB Let_def)
  then show ?thesis
    by (simp only: val_calc_def LHO_SUBURB Landscape.case val_calc_suburb_def for_tiles_sum)
next
  case LHO_MEADOW
  have "(\<lambda>t v.
       if type t = LHO_LANDSCAPE then
         (let numRivers = numAdjRivers t in
          if numRivers = 0 then v + landValue ld else v + (landValue ld * 2) * numRivers)
       else v) = (\<lambda>t v. v + tile_score ld t)"
    by (intro ext) (simp add: tile_score_def LHO_MEADOW Let_def)
  then show ?thesis
    by (simp only: val_calc_def LHO_MEADOW Landscape.case val_calc_meadow_thicket_def for_tiles_sum)
next
  case LHO_THICKET
  have "(\<lambda>t v.
       if type t = LHO_LANDSCAPE then
         (let numRivers = numAdjRivers t in
          if numRivers = 0 then v + landValue ld else v + (landValue ld * 2) * numRivers)
       else v) = (\<lambda>t v. v + tile_score ld t)"
    by (intro ext) (simp add: tile_score_def LHO_THICKET Let_def)
  then show ?thesis
    by (simp only: val_calc_def LHO_THICKET Landscape.case val_calc_meadow_thicket_def for_tiles_sum)
qed

lemma init_landscape_value: "0 \<le> landValue (init_landscape choice static_land)"
  by (simp add: init_landscape_def static_land_def LHO_MEADOWVAL_def LHO_THICKETVAL_def
        LHO_MOUNTAINVAL_def LHO_SUBURBVAL_def)

lemma tile_score_zero_counters:
  assumes "0 \<le> landValue ld" "numAdjRivers t = 0" "numAdjLands t = 0"
  shows "0 \<le> tile_score ld t"
  using assms by (cases "landChoice ld") (simp_all add: tile_score_def mountain_tile_def)

lemma val_calc_zero_counters:
  assumes w: "wf_grid numRows numCols g" and z: "zero_counters g" and l: "0 \<le> landValue ld"
    and v: "val_calc ld numRows numCols g = Some v"
  shows "0 \<le> v"
proof -
  have "0 \<le> tile_score ld (grid g ! i ! j)"
    if "i \<in> set [0..<nat numRows]" "j \<in> set [0..<nat numCols]" for i j
  proof -
    from that w have "i < length (grid g)" by (simp add: wf_grid_def)
    then have r: "grid g ! i \<in> set (grid g)" by simp
    with w that have "j < length (grid g ! i)" by (simp add: wf_grid_def list_all_iff)
    then have "grid g ! i ! j \<in> set (grid g ! i)" by simp
    with z r have "numAdjRivers (grid g ! i ! j) = 0 \<and> numAdjLands (grid g ! i ! j) = 0"
      unfolding zero_counters_def by blast
    then show ?thesis using l by (simp add: tile_score_zero_counters)
  qed
  then have "0 \<le> sum_list (map (\<lambda>i. sum_list (map (\<lambda>j. tile_score ld (grid g ! i ! j))
               [0..<nat numCols])) [0..<nat numRows])"
    by (auto intro!: sum_list_nonneg)
  with v show ?thesis by (simp add: val_calc_sum)
qed

lemma tile_upd_zero_counters:
  assumes u: "tile_upd numRows numCols f i j g = Some g'" and z: "zero_counters g"
    and f: "\<And>t. numAdjRivers (f t) = numAdjRivers t \<and> numAdjLands (f t) = numAdjLands t"
    and w: "wf_grid numRows numCols g"
  shows "zero_counters g'"
proof -
  from u have ij: "in_array numRows numCols i j"
    and g': "grid g' = (grid g)[nat i := (grid g ! nat i)[nat j := f (grid g ! nat i ! nat j)]]"
    by (auto simp: tile_upd_def split: if_splits)
  from wf_grid_nth[OF w ij] have l: "nat i < length (grid g)" "nat j < length (grid g ! nat i)"
    by simp_all
  have old: "numAdjRivers (grid g ! nat i ! nat j) = 0 \<and> numAdjLands (grid g ! nat i ! nat j) = 0"
    using z l unfolding zero_counters_def by (meson nth_mem)
  show ?thesis
    unfolding zero_counters_def g'
  proof (intro ballI)
    fix row t
    assume row: "row \<in> set ((grid g)[nat i := (grid g ! nat i)[nat j := f (grid g ! nat i ! nat j)]])"
      and t: "t \<in> set row"
    from row have "row = (grid g ! nat i)[nat j := f (grid g ! nat i ! nat j)] \<or> row \<in> set (grid g)"
      using set_update_subset_insert by fastforce
    then show "numAdjRivers t = 0 \<and> numAdjLands t = 0"
    proof
      assume "row \<in> set (grid g)"
      with z t show ?thesis unfolding zero_counters_def by blast
    next
      assume "row = (grid g ! nat i)[nat j := f (grid g ! nat i ! nat j)]"
      with t have "t = f (grid g ! nat i ! nat j) \<or> t \<in> set (grid g ! nat i)"
        using set_update_subset_insert by fastforce
      then show ?thesis
      proof
        assume "t = f (grid g ! nat i ! nat j)"
        then show ?thesis using old f by simp
      next
        assume "t \<in> set (grid g ! nat i)"
        moreover have "grid g ! nat i \<in> set (grid g)" using l by simp
        ultimately show ?thesis using z unfolding zero_counters_def by blast
      qed
    qed
  qed
qed

lemma heuristic_loop_zero_counters:
  "heuristic_loop numRows numCols firstLoop s g = Some g' \<Longrightarrow>
     wf_grid numRows numCols g \<Longrightarrow> zero_counters g \<Longrightarrow>
     wf_grid numRows numCols g' \<and> zero_counters g'"
proof (induction numRows numCols firstLoop s g rule: heuristic_loop.induct)
  case (1 numRows numCols firstLoop i j l n ov g)
  from "1.prems"(1) obtain g1 where
    u: "tile_upd numRows numCols (\<lambda>t. t\<lparr>type := LHO_RIVER\<rparr>) i j g = Some g1"
    by (auto split: option.splits)
  have w1: "wf_grid numRows numCols g1" by (rule tile_upd_wf[OF u "1.prems"(2)])
  have z1: "zero_counters g1"
    by (rule tile_upd_zero_counters[OF u "1.prems"(3) _ "1.prems"(2)]) simp
  show ?case
  proof (cases "j = numCols - 1")
    case True
    with "1.prems"(1) u have "g' = g1" by simp
    with w1 z1 show ?thesis by simp
  next
    case False
    with "1.prems"(1) u have
      "heuristic_loop numRows numCols False (zig_step numRows firstLoop (i, j, l, n, ov)) g1 = Some g'"
      by simp
    from "1.IH"[OF u False this w1 z1] show ?thesis .
  qed
qed

lemma heuristic_grid_value:
  assumes h: "heuristic_grid numRows numCols (allocate_grid numRows numCols) = Some temp"
    and v: "val_calc ld numRows numCols temp = Some v"
    and l: "0 \<le> landValue ld"
  shows "0 \<le> v"
proof -
  let ?g = "(allocate_grid numRows numCols)\<lparr>grid :=
              map (map (\<lambda>t. t\<lparr>type := LHO_LANDSCAPE\<rparr>)) (grid (allocate_grid numRows numCols))\<rparr>"
  have w: "wf_grid numRows numCols ?g"
    by (simp add: wf_grid_def allocate_grid_def list_all_iff)
  have z: "zero_counters ?g"
    by (auto simp: zero_counters_def allocate_grid_def empty_tile_def)
  from h have "heuristic_loop numRows numCols True (0, 0, LHO_RIGHT, LHO_DOWN, LHO_DOWN) ?g = Some temp"
    by (simp add: heuristic_grid_def)
  from heuristic_loop_zero_counters[OF this w z] val_calc_zero_counters[OF _ _ l v]
  show ?thesis by blast
qed

lemma log_ok_initial: "log_ok initial_state"
  by (simp add: log_ok_def initial_state_def)

lemma log_ok_depth [simp]: "log_ok (st\<lparr>recursion_depth := d\<rparr>) = log_ok st"
  by (simp add: log_ok_def)

lemma log_ok_pruned [simp]: "log_ok (st\<lparr>pruned_log := p\<rparr>) = log_ok st"
  by (simp add: log_ok_def)

lemma log_ok_initial_recursion [simp]: "log_ok (st\<lparr>initial_recursion := p\<rparr>) = log_ok st"
  by (simp add: log_ok_def)

lemma set_bestVal_fields [simp]:
  "bestVal (set_bestVal v st) = v"
  "initial_recursion (set_bestVal v st) = initial_recursion st"
  by (simp_all add: set_bestVal_def)

lemma log_ok_set_bestVal:
  assumes "log_ok st" "bestVal st \<le> v"
  shows "log_ok (set_bestVal v st)"
proof -
  from assms have n: "bestVal_log st \<noteq> []" and s: "sorted (bestVal_log st)"
    and l: "last (bestVal_log st) \<le> v"
    by (simp_all add: log_ok_def)
  have "x \<le> v" if "x \<in> set (bestVal_log st)" for x
  proof -
    from that obtain k where k: "k < length (bestVal_log st)" "x = bestVal_log st ! k"
      by (auto simp: in_set_conv_nth)
    with s n have "x \<le> bestVal_log st ! (length (bestVal_log st) - 1)"
      by (simp add: sorted_nth_mono)
    also have "\<dots> = last (bestVal_log st)" using n by (simp add: last_conv_nth)
    finally show ?thesis using l by simp
  qed
  with assms show ?thesis
    by (simp add: log_ok_def set_bestVal_def sorted_append)
qed

lemma explore_ok:
  assumes rec: "\<And>g st. log_ok st \<Longrightarrow> \<not> initial_recursion st \<Longrightarrow>
                  call_ok ld numRows numCols (bestVal st) (recurse g st)"
    and inv: "loop_ok ld numRows numCols b (Inr loc, st)"
  shows "loop_ok ld numRows numCols b (explore recurse ld numRows numCols i added loc st)"
proof (cases added)
  case None
  with inv show ?thesis by (simp add: explore_def loop_ok_def)
next
  case (Some a)
  obtain ok tg where a: "a = (ok, tg)" by (cases a)
  show ?thesis
  proof (cases ok)
    case False
    with inv Some a show ?thesis by (auto simp: explore_def loop_ok_def)
  next
    case True
    show ?thesis
    proof (cases "remove_terrain numRows numCols i tg")
      case None
      with inv Some a True show ?thesis by (auto simp: explore_def loop_ok_def)
    next
      case tg': (Some tg')
      let ?st0 = "st\<lparr>recursion_depth := recursion_depth st + 1\<rparr>"
      from inv have st: "log_ok st" "\<not> initial_recursion st" "b \<le> bestVal st"
        and cb: "currentBest loc = bestVal st"
        and bg: "val_calc ld numRows numCols (bestGrid loc) = Some (currentBest loc) \<or>
                 currentBest loc = b"
        by (auto simp: loop_ok_def)
      obtain r st1 where r: "recurse tg ?st0 = (r, st1)" by (cases "recurse tg ?st0")
      from rec[of ?st0 tg] st r have c: "call_ok ld numRows numCols (bestVal st) (r, st1)"
        by simp
      then have st1: "log_ok st1" "\<not> initial_recursion st1" "bestVal st \<le> bestVal st1"
        by (simp_all add: call_ok_def)
      show ?thesis
      proof (cases r)
        case (Inl e)
        with Some a True tg' r st1 st show ?thesis
          by (simp add: explore_def loop_ok_def)
      next
        case (Inr temp)
        show ?thesis
        proof (cases "val_calc ld numRows numCols temp")
          case None
          with Inr Some a True tg' r st1 st show ?thesis
            by (simp add: explore_def loop_ok_def)
        next
          case v: (Some v)
          from c Inr v have le: "bestVal st1 \<le> max (bestVal st) v"
            by (simp add: call_ok_def)
          show ?thesis
          proof (cases "v > currentBest loc")
            case gt: True
            with le cb have "bestVal st1 \<le> v" by simp
            from log_ok_set_bestVal[OF st1(1) this] have l2: "log_ok (set_bestVal v st1)" .
            have "b \<le> v" using gt cb st(3) by simp
            with gt Inr Some a True tg' r v l2 st1 show ?thesis
              by (simp add: explore_def loop_ok_def Let_def)
          next
            case ngt: False
            with le cb st1(3) have "bestVal st1 = bestVal st" by simp
            with ngt Inr Some a True tg' r v st1 st cb bg show ?thesis
              by (simp add: explore_def loop_ok_def Let_def)
          qed
        qed
      qed
    qed
  qed
qed

lemma search_cell_ok:
  assumes rec: "\<And>g st. log_ok st \<Longrightarrow> \<not> initial_recursion st \<Longrightarrow>
                  call_ok ld numRows numCols (bestVal st) (recurse g st)"
    and inv: "loop_ok ld numRows numCols b s"
  shows "loop_ok ld numRows numCols b (search_cell recurse ld numRows numCols i s)"
proof -
  obtain r st where s: "s = (r, st)" by (cases s)
  show ?thesis
  proof (cases r)
    case (Inl e)
    with inv s show ?thesis by (simp add: search_cell_def)
  next
    case (Inr loc)
    let ?e = "explore recurse ld numRows numCols i (add_river numRows numCols i (thisGrid loc)) loc st"
    obtain r1 st1 where e: "?e = (r1, st1)" by (cases ?e)
    have "loop_ok ld numRows numCols b ?e"
    proof (rule explore_ok)
      show "loop_ok ld numRows numCols b (Inr loc, st)" using inv s Inr by simp
    qed (rule rec)
    with e have i1: "loop_ok ld numRows numCols b (r1, st1)" by simp
    show ?thesis
    proof (cases r1)
      case (Inl e1)
      with i1 s Inr e show ?thesis by (simp add: search_cell_def)
    next
      case r1: (Inr loc1)
      have "loop_ok ld numRows numCols b
              (explore recurse ld numRows numCols i (add_land numRows numCols i (thisGrid loc1)) loc1 st1)"
      proof (rule explore_ok)
        show "loop_ok ld numRows numCols b (Inr loc1, st1)" using i1 r1 by simp
      qed (rule rec)
      with s Inr e r1 show ?thesis by (simp add: search_cell_def)
    qed
  qed
qed

lemma search_loop_ok:
  assumes rec: "\<And>g st. log_ok st \<Longrightarrow> \<not> initial_recursion st \<Longrightarrow>
                  call_ok ld numRows numCols (bestVal st) (recurse g st)"
  shows "loop_ok ld numRows numCols b s \<Longrightarrow>
         loop_ok ld numRows numCols b
           (fold (\<lambda>i. search_cell recurse ld numRows numCols (int i)) cells s)"
proof (induction cells arbitrary: s)
  case Nil
  then show ?case by simp
next
  case (Cons c cells)
  have "loop_ok ld numRows numCols b (search_cell recurse ld numRows numCols (int c) s)"
    by (rule search_cell_ok[OF rec Cons.prems])
  from Cons.IH[OF this] show ?case by simp
qed

lemma search_loop_fault:
  "fold (\<lambda>i. search_cell recurse ld numRows numCols (int i)) cells (Inl e, st) = (Inl e, st)"
  by (induction cells) (simp_all add: search_cell_def)

lemma search_result_ok:
  assumes "loop_ok ld numRows numCols b s"
  shows "call_ok ld numRows numCols b
           (case s of (Inl e, st1) \<Rightarrow> (Inl e, st1) | (Inr loc, st1) \<Rightarrow> (Inr (bestGrid loc), st1))"
proof -
  obtain r st where s: "s = (r, st)" by (cases s)
  show ?thesis
  proof (cases r)
    case (Inl e)
    with assms s show ?thesis by (simp add: loop_ok_def call_ok_def)
  next
    case (Inr loc)
    with assms s show ?thesis
      by (auto simp: loop_ok_def call_ok_def split: option.splits)
  qed
qed

lemma recurse_grid_ok:
  "log_ok st \<Longrightarrow> \<not> initial_recursion st \<Longrightarrow>
     call_ok ld numRows numCols (bestVal st) (recurse_grid fuel ld numRows numCols g st)"
proof (induction fuel arbitrary: g st)
  case 0
  then show ?case by (simp add: call_ok_def)
next
  case (Suc fuel)
  let ?loc = "\<lparr>thisGrid = g, tempGrid = allocate_grid numRows numCols,
               bestGrid = g, currentBest = bestVal st\<rparr>"
  let ?s = "fold (\<lambda>i. search_cell (recurse_grid fuel ld numRows numCols) ld numRows numCols (int i))
              [0..<nat (numRows * numCols)] (Inr ?loc, st)"
  have stay: "call_ok ld numRows numCols (bestVal st) (Inr g, st)"
    using Suc.prems by (simp add: call_ok_def split: option.splits)
  have stay': "call_ok ld numRows numCols (bestVal st)
                 (Inr g, st\<lparr>pruned_log := pruned_log st @ [(bestVal st, g)]\<rparr>)"
    using Suc.prems by (simp add: call_ok_def split: option.splits)
  have fault: "call_ok ld numRows numCols (bestVal st) (Inl OutOfBounds, st)"
    using Suc.prems by (simp add: call_ok_def)
  have "loop_ok ld numRows numCols (bestVal st) (Inr ?loc, st)"
    using Suc.prems by (simp add: loop_ok_def)
  then have "loop_ok ld numRows numCols (bestVal st) ?s"
  proof (rule search_loop_ok[rotated])
    fix g' st'
    assume "log_ok st'" "\<not> initial_recursion st'"
    then show "call_ok ld numRows numCols (bestVal st') (recurse_grid fuel ld numRows numCols g' st')"
      by (rule Suc.IH)
  qed
  from search_result_ok[OF this]
  have go: "call_ok ld numRows numCols (bestVal st)
              (case ?s of (Inl e, st1) \<Rightarrow> (Inl e, st1) | (Inr loc, st1) \<Rightarrow> (Inr (bestGrid loc), st1))" .
  have seed: "seed_best ld numRows numCols ?loc st = (Inr ?loc, st)"
    using Suc.prems by (simp add: seed_best_def)
  show ?case
    unfolding recurse_grid.simps seed Let_def
    using stay stay' fault go by (simp split: option.splits)
qed

lemma recurse_grid_log_ok:
  assumes l: "0 \<le> landValue ld" and st: "log_ok st" and b: "bestVal st \<le> 0"
  shows "log_ok (snd (recurse_grid fuel ld numRows numCols g st))"
proof (cases "initial_recursion st")
  case False
  from recurse_grid_ok[OF st False] show ?thesis
    by (simp add: call_ok_def split_beta)
next
  case True
  show ?thesis
  proof (cases fuel)
    case 0
    with st show ?thesis by simp
  next
    case (Suc fuel')
    let ?loc = "\<lparr>thisGrid = g, tempGrid = allocate_grid numRows numCols,
                 bestGrid = g, currentBest = bestVal st\<rparr>"
    let ?seed = "seed_best ld numRows numCols ?loc st"
    let ?s = "fold (\<lambda>i. search_cell (recurse_grid fuel' ld numRows numCols) ld numRows numCols (int i))
                [0..<nat (numRows * numCols)] ?seed"
    have go: "log_ok (snd (case ?s of (Inl e, st1) \<Rightarrow> (Inl e, st1)
                                     | (Inr loc, st1) \<Rightarrow> (Inr (bestGrid loc), st1)))"
    proof (cases "heuristic_grid numRows numCols (allocate_grid numRows numCols)")
      case None
      with True have "?seed = (Inl OutOfBounds, st)" by (simp add: seed_best_def)
      with st show ?thesis by (simp add: search_loop_fault)
    next
      case (Some temp)
      from val_calc_sum obtain v where v: "val_calc ld numRows numCols temp = Some v" by blast
      have "0 \<le> v" by (rule heuristic_grid_value[OF Some v l])
      with b have bv: "bestVal st \<le> v" by simp
      let ?loc1 = "?loc\<lparr>tempGrid := temp, currentBest := v, bestGrid := temp\<rparr>"
      let ?st1 = "(set_bestVal v st)\<lparr>initial_recursion := False\<rparr>"
      from True Some v have seed: "?seed = (Inr ?loc1, ?st1)" by (simp add: seed_best_def)
      have "loop_ok ld numRows numCols (bestVal st) (Inr ?loc1, ?st1)"
        using log_ok_set_bestVal[OF st bv] bv v by (simp add: loop_ok_def)
      then have "loop_ok ld numRows numCols (bestVal st) ?s"
        unfolding seed
      proof (rule search_loop_ok[rotated])
        fix g' st'
        assume "log_ok st'" "\<not> initial_recursion st'"
        then show "call_ok ld numRows numCols (bestVal st')
                     (recurse_grid fuel' ld numRows numCols g' st')"
          by (rule recurse_grid_ok)
      qed
      from search_result_ok[OF this] show ?thesis by (simp add: call_ok_def split_beta)
    qed
    show ?thesis
      unfolding Suc recurse_grid.simps Let_def
      using st go by (simp split: option.splits)
  qed
qed

subsection \<open>The depth of the recursion\<close>

text \<open>
  Every recursive call is made on a grid with one more cell filled, and a grid with every cell
  filled is \<open>full\<close>, on which \<open>recurse_grid\<close> returns at once: a recursion budget above the number
  of cells is never used up, so the results below that hold for every budget hold for the
  complete run.
\<close>

lemma add_land_step_ok:
  assumes g: "node_ok numRows numCols n m g" and c: "0 < numCols"
  shows "step_ok numRows numCols n m i (add_land numRows numCols i g)"
proof (cases "add_land numRows numCols i g")
  case None
  then show ?thesis by (simp add: step_ok_def)
next
  case (Some a)
  obtain ok tg where a: "a = (ok, tg)" by (cases a)
  from g have w: "wf_grid numRows numCols g" by (simp add: node_ok_def)
  show ?thesis
  proof (cases ok)
    case False
    with Some a add_land_rejected[of numRows numCols i g tg] g show ?thesis
      by (simp add: step_ok_def)
  next
    case True
    with Some a have acc: "add_land numRows numCols i g = Some (True, tg)" by simp
    note f = add_land_accepted[OF acc w c]
    from f(2,4,5) g have n1: "node_ok numRows numCols (n + 1) m tg"
      by (simp add: node_ok_def)
    from f(7) g have fl: "n + 1 = m \<longrightarrow> full tg" by (simp add: node_ok_def)
    have rm: "node_ok numRows numCols n m tg'"
      if r: "remove_terrain numRows numCols i tg = Some tg'" for tg'
    proof (rule remove_terrain_spec[OF r f(2)])
      fix t
      assume t: "tile_at numRows numCols tg (get_row_idx numCols i) (get_col_idx numCols i) = Some t"
        and w': "wf_grid numRows numCols tg'"
        and nf: "numFilledTiles tg' = numFilledTiles tg - (if type t = LHO_EMPTY then 0 else 1)"
        and mt: "maxTiles tg' = maxTiles tg"
      from t f(8)[of "get_row_idx numCols i" "get_col_idx numCols i"]
      have "type t = LHO_LANDSCAPE" by auto
      with nf have "numFilledTiles tg' = numFilledTiles tg - 1" by simp
      with w' mt n1 show ?thesis by (simp add: node_ok_def)
    qed
    from n1 fl rm show ?thesis
      by (simp add: step_ok_def Some a True split: option.splits)
  qed
qed

lemma add_river_step_ok:
  assumes g: "node_ok numRows numCols n m g" and c: "0 < numCols"
  shows "step_ok numRows numCols n m i (add_river numRows numCols i g)"
proof (cases "add_river numRows numCols i g")
  case None
  then show ?thesis by (simp add: step_ok_def)
next
  case (Some a)
  obtain ok tg where a: "a = (ok, tg)" by (cases a)
  from g have w: "wf_grid numRows numCols g" by (simp add: node_ok_def)
  show ?thesis
  proof (cases ok)
    case False
    with Some a add_river_rejected[of numRows numCols i g tg] g show ?thesis
      by (simp add: step_ok_def node_ok_def)
  next
    case True
    with Some a have acc: "add_river numRows numCols i g = Some (True, tg)" by simp
    note f = add_river_accepted[OF acc w c]
    from f(4,8,9) g have n1: "node_ok numRows numCols (n + 1) m tg"
      by (simp add: node_ok_def)
    from f(11) g have fl: "n + 1 = m \<longrightarrow> full tg" by (simp add: node_ok_def)
    have rm: "node_ok numRows numCols n m tg'"
      if r: "remove_terrain numRows numCols i tg = Some tg'" for tg'
    proof (rule remove_terrain_spec[OF r f(4)])
      fix t
      assume t: "tile_at numRows numCols tg (get_row_idx numCols i) (get_col_idx numCols i) = Some t"
        and w': "wf_grid numRows numCols tg'"
        and nf: "numFilledTiles tg' = numFilledTiles tg - (if type t = LHO_EMPTY then 0 else 1)"
        and mt: "maxTiles tg' = maxTiles tg"
      from t f(12)[of "get_row_idx numCols i" "get_col_idx numCols i"]
      have "type t = LHO_RIVER" by auto
      with nf have "numFilledTiles tg' = numFilledTiles tg - 1" by simp
      with w' mt n1 show ?thesis by (simp add: node_ok_def)
    qed
    from n1 fl rm show ?thesis
      by (simp add: step_ok_def Some a True split: option.splits)
  qed
qed

lemma explore_returns:
  assumes rec: "\<And>tg st. node_ok numRows numCols (n + 1) m tg \<Longrightarrow> (n + 1 = m \<longrightarrow> full tg) \<Longrightarrow>
                  fst (recurse tg st) \<noteq> Inl OutOfFuel"
    and step: "step_ok numRows numCols n m i added"
    and loc: "node_ok numRows numCols n m (thisGrid loc)"
  shows "loop_returns numRows numCols n m (explore recurse ld numRows numCols i added loc st)"
proof (cases added)
  case None
  then show ?thesis by (simp add: explore_def loop_returns_def)
next
  case (Some a)
  obtain ok tg where a: "a = (ok, tg)" by (cases a)
  show ?thesis
  proof (cases ok)
    case False
    with step Some a show ?thesis by (simp add: explore_def loop_returns_def step_ok_def)
  next
    case True
    show ?thesis
    proof (cases "remove_terrain numRows numCols i tg")
      case None
      with Some a True show ?thesis by (simp add: explore_def loop_returns_def)
    next
      case tg': (Some tg')
      let ?st0 = "st\<lparr>recursion_depth := recursion_depth st + 1\<rparr>"
      from step Some a True tg' have n1: "node_ok numRows numCols (n + 1) m tg"
        and fl: "n + 1 = m \<longrightarrow> full tg" and n0: "node_ok numRows numCols n m tg'"
        by (simp_all add: step_ok_def)
      obtain r st1 where r: "recurse tg ?st0 = (r, st1)" by (cases "recurse tg ?st0")
      from rec[OF n1 fl, of ?st0] r have nf: "r \<noteq> Inl OutOfFuel" by simp
      show ?thesis
      proof (cases r)
        case (Inl e)
        with nf Some a True tg' r show ?thesis
          by (simp add: explore_def loop_returns_def)
      next
        case (Inr temp)
        with Some a True tg' r n0 show ?thesis
          by (simp add: explore_def loop_returns_def Let_def split: option.splits)
      qed
    qed
  qed
qed

lemma search_cell_returns:
  assumes rec: "\<And>tg st. node_ok numRows numCols (n + 1) m tg \<Longrightarrow> (n + 1 = m \<longrightarrow> full tg) \<Longrightarrow>
                  fst (recurse tg st) \<noteq> Inl OutOfFuel"
    and c: "0 < numCols"
    and inv: "loop_returns numRows numCols n m s"
  shows "loop_returns numRows numCols n m (search_cell recurse ld numRows numCols i s)"
proof -
  obtain r st where s: "s = (r, st)" by (cases s)
  show ?thesis
  proof (cases r)
    case (Inl e)
    with inv s show ?thesis by (simp add: search_cell_def)
  next
    case (Inr loc)
    with inv s have l: "node_ok numRows numCols n m (thisGrid loc)"
      by (simp add: loop_returns_def)
    let ?e = "explore recurse ld numRows numCols i (add_river numRows numCols i (thisGrid loc)) loc st"
    obtain r1 st1 where e: "?e = (r1, st1)" by (cases ?e)
    have "loop_returns numRows numCols n m ?e"
      by (rule explore_returns[OF rec add_river_step_ok[OF l c] l])
    with e have i1: "loop_returns numRows numCols n m (r1, st1)" by simp
    show ?thesis
    proof (cases r1)
      case (Inl e1)
      with i1 s Inr e show ?thesis by (simp add: search_cell_def)
    next
      case r1: (Inr loc1)
      with i1 have l1: "node_ok numRows numCols n m (thisGrid loc1)"
        by (simp add: loop_returns_def)
      have "loop_returns numRows numCols n m
              (explore recurse ld numRows numCols i (add_land numRows numCols i (thisGrid loc1)) loc1 st1)"
        by (rule explore_returns[OF rec add_land_step_ok[OF l1 c] l1])
      with s Inr e r1 show ?thesis by (simp add: search_cell_def)
    qed
  qed
qed

lemma search_loop_returns:
  assumes rec: "\<And>tg st. node_ok numRows numCols (n + 1) m tg \<Longrightarrow> (n + 1 = m \<longrightarrow> full tg) \<Longrightarrow>
                  fst (recurse tg st) \<noteq> Inl OutOfFuel"
    and c: "0 < numCols"
  shows "loop_returns numRows numCols n m s \<Longrightarrow>
         loop_returns numRows numCols n m
           (fold (\<lambda>i. search_cell recurse ld numRows numCols (int i)) cells s)"
proof (induction cells arbitrary: s)
  case Nil
  then show ?case by simp
next
  case (Cons x cells)
  have "loop_returns numRows numCols n m (search_cell recurse ld numRows numCols (int x) s)"
    by (rule search_cell_returns[OF rec c Cons.prems])
  from Cons.IH[OF this] show ?case by simp
qed

lemma seed_best_returns:
  "loop_returns numRows numCols (numFilledTiles g) (maxTiles g)
     (seed_best ld numRows numCols
        \<lparr>thisGrid = g, tempGrid = tmp, bestGrid = g, currentBest = b\<rparr> st)"
  if "wf_grid numRows numCols g"
  using that
  by (simp add: seed_best_def loop_returns_def node_ok_def split: option.splits)

lemma recurse_grid_returns:
  assumes c: "0 < numCols"
  shows "wf_grid numRows numCols g \<Longrightarrow> (maxTiles g \<le> numFilledTiles g \<longrightarrow> full g) \<Longrightarrow>
         nat (maxTiles g - numFilledTiles g) < fuel \<Longrightarrow>
         fst (recurse_grid fuel ld numRows numCols g st) \<noteq> Inl OutOfFuel"
proof (induction fuel arbitrary: g st)
  case 0
  then show ?case by simp
next
  case (Suc fuel)
  show ?case
  proof (cases "full g")
    case True
    then show ?thesis by simp
  next
    case False
    with Suc.prems(2) have lt: "numFilledTiles g < maxTiles g" by auto
    let ?seed = "seed_best ld numRows numCols
                   \<lparr>thisGrid = g, tempGrid = allocate_grid numRows numCols,
                    bestGrid = g, currentBest = bestVal st\<rparr> st"
    let ?s = "fold (\<lambda>i. search_cell (recurse_grid fuel ld numRows numCols) ld numRows numCols (int i))
                [0..<nat (numRows * numCols)] ?seed"
    have "loop_returns numRows numCols (numFilledTiles g) (maxTiles g) ?s"
    proof (rule search_loop_returns[OF _ c seed_best_returns[OF Suc.prems(1)]])
      fix tg st'
      assume n: "node_ok numRows numCols (numFilledTiles g + 1) (maxTiles g) tg"
        and f: "numFilledTiles g + 1 = maxTiles g \<longrightarrow> full tg"
      from n have w: "wf_grid numRows numCols tg" and nf: "numFilledTiles tg = numFilledTiles g + 1"
        and mt: "maxTiles tg = maxTiles g"
        by (simp_all add: node_ok_def)
      from f nf mt lt have fl: "maxTiles tg \<le> numFilledTiles tg \<longrightarrow> full tg" by auto
      from Suc.prems(3) nf mt lt have "nat (maxTiles tg - numFilledTiles tg) < fuel" by simp
      from Suc.IH[OF w fl this]
      show "fst (recurse_grid fuel ld numRows numCols tg st') \<noteq> Inl OutOfFuel" .
    qed
    then have "fst (case ?s of (Inl e, st1) \<Rightarrow> (Inl e, st1)
                             | (Inr loc, st1) \<Rightarrow> (Inr (bestGrid loc), st1)) \<noteq> Inl OutOfFuel"
      by (cases ?s) (auto simp: loop_returns_def split: sum.splits)
    then show ?thesis
      unfolding recurse_grid.simps Let_def using False by (simp split: option.splits)
  qed
qed

lemma recurse_grid_no_cells:
  assumes "numRows * numCols \<le> 0"
  shows "fst (recurse_grid (Suc fuel) ld numRows numCols g st) \<noteq> Inl OutOfFuel"
  using assms by (simp add: seed_best_def Let_def split: option.splits)

lemma search_run_returns:
  assumes c: "0 < cols" and f: "nat (rows * cols) < fuel"
  shows "fst (search_run fuel rows cols land) \<noteq> Inl OutOfFuel"
proof (cases "0 < rows")
  case True
  with c have "0 < rows * cols" by simp
  then have "maxTiles (allocate_grid rows cols) \<le> numFilledTiles (allocate_grid rows cols) \<longrightarrow>
        full (allocate_grid rows cols)"
    by (simp add: allocate_grid_def)
  moreover from f
  have "nat (maxTiles (allocate_grid rows cols) - numFilledTiles (allocate_grid rows cols)) < fuel"
    by (simp add: allocate_grid_def)
  ultimately show ?thesis
    unfolding search_run_def by (rule recurse_grid_returns[OF c wf_grid_allocate])
next
  case False
  with c have "rows * cols \<le> 0" by (simp add: mult_le_0_iff)
  moreover from f obtain fuel' where "fuel = Suc fuel'" by (cases fuel) simp_all
  ultimately show ?thesis
    unfolding search_run_def by (simp only: recurse_grid_no_cells not_False_eq_True)
qed

text \<open>
  C4. Over one whole search run (the top-level call of \<open>recurse_grid\<close> on the empty grid with
  \<open>bestVal = -1\<close>, and all the calls below it), every value that \<open>bestVal\<close> takes is greater
  than or equal to every value it took before: the record of its values, oldest first, starts
  with \<open>-1\<close>, ends with the current value and is sorted. This holds for every size of grid,
  every landscape choice and every bound on the depth of the recursion (a bound above the
  number of cells is never reached, \<open>search_run_returns\<close>), also when the run ends at an access
  outside the tile array. The one
  assignment that is not guarded by a comparison, \<open>bestVal = currentBest\<close> on the first call,
  cannot lower \<open>bestVal\<close> because the value of the heuristic grid is never negative.
\<close>

theorem bestVal_never_decreases:
  "sorted (bestVal_log (snd (search_run fuel rows cols land))) \<and>
   hd (bestVal_log (snd (search_run fuel rows cols land))) = -1 \<and>
   last (bestVal_log (snd (search_run fuel rows cols land))) =
     bestVal (snd (search_run fuel rows cols land))"
proof -
  have "log_ok (snd (search_run fuel rows cols land))"
    unfolding search_run_def
    by (rule recurse_grid_log_ok[OF init_landscape_value log_ok_initial])
       (simp add: initial_state_def)
  then show ?thesis by (simp add: log_ok_def initial_state_def)
qed

text \<open>
  The run on the 1 x 2 grid with meadows: the heuristic grid sets \<open>bestVal\<close> to 0, the first
  complete grid to 6, and the top-level call assigns 6 once more.
\<close>

theorem bestVal_never_decreases_witness:
  "bestVal_log (snd (search_run 3 1 2 0)) = [-1, 0, 6, 6] \<and>
   sorted (bestVal_log (snd (search_run 3 1 2 0)))"
proof -
  have "bestVal_log (snd (search_run 3 1 2 0)) = [-1, 0, 6, 6]" by code_simp
  with bestVal_never_decreases[of 3 1 2 0] show ?thesis by simp
qed

end
